theory Spec2Isabelle
  imports Main
begin

section \<open>JavaScript strings\<close>

text \<open>
  A JavaScript string is a sequence of UTF-16 code units. A code unit is modelled as a
  natural number (no arithmetic is done on code units, so the bound \<open>< 65536\<close> plays no
  role), and a string as the list of its code units. \<open>js ''abc''\<close> is the string
  literal \<open>'abc'\<close>.
\<close>

type_synonym jschar = nat
type_synonym jsstring = "jschar list"

abbreviation (input) js :: "string \<Rightarrow> jsstring" where
  "js s \<equiv> map of_char s"

text \<open>The line terminators of ECMAScript: LF, CR, U+2028 and U+2029.\<close>

definition isLineTerminator :: "jschar \<Rightarrow> bool" where
  "isLineTerminator c \<longleftrightarrow> c = 10 \<or> c = 13 \<or> c = 8232 \<or> c = 8233"

text \<open>
  The class \<open>\s\<close> of a regular expression, which is also the set of characters that
  \<open>String.prototype.trim\<close> strips: TAB, LF, VT, FF, CR, SP, U+00A0, U+1680,
  U+2000 to U+200A, U+2028, U+2029, U+202F, U+205F, U+3000 and U+FEFF.
\<close>

definition isWhiteSpace :: "jschar \<Rightarrow> bool" where
  "isWhiteSpace c \<longleftrightarrow>
     c = 9 \<or> c = 10 \<or> c = 11 \<or> c = 12 \<or> c = 13 \<or> c = 32 \<or> c = 160 \<or> c = 5760 \<or>
     (8192 \<le> c \<and> c \<le> 8202) \<or> c = 8232 \<or> c = 8233 \<or> c = 8239 \<or> c = 8287 \<or>
     c = 12288 \<or> c = 65279"

text \<open>The pattern character \<open>#\<close>, the class \<open>.\<close> (no flag \<open>s\<close>) and the class \<open>[A-Z\s]\<close>.\<close>

definition isHash :: "jschar \<Rightarrow> bool" where
  "isHash c \<longleftrightarrow> c = 35"

definition isDot :: "jschar \<Rightarrow> bool" where
  "isDot c \<longleftrightarrow> \<not> isLineTerminator c"

definition isUpperOrSpace :: "jschar \<Rightarrow> bool" where
  "isUpperOrSpace c \<longleftrightarrow> (65 \<le> c \<and> c \<le> 90) \<or> isWhiteSpace c"

text \<open>\<open>s.trim()\<close>\<close>

definition trim :: "jsstring \<Rightarrow> jsstring" where
  "trim s = rev (dropWhile isWhiteSpace (rev (dropWhile isWhiteSpace s)))"

text \<open>\<open>xs.join(sep)\<close>\<close>

fun join :: "jsstring \<Rightarrow> jsstring list \<Rightarrow> jsstring" where
  "join sep [] = []"
| "join sep [x] = x"
| "join sep (x # y # ys) = x @ sep @ join sep (y # ys)"

text \<open>
  \<open>text.split(/\r?\n/)\<close>: the text is cut at every LF, and a CR that stands
  immediately before that LF belongs to the separator. The result always has at least
  one element; the split of the empty string is \<open>['']\<close>.
\<close>

fun cons_first :: "jschar \<Rightarrow> jsstring list \<Rightarrow> jsstring list" where
  "cons_first c [] = [[c]]"
| "cons_first c (l # ls) = (c # l) # ls"

fun split_lines :: "jsstring \<Rightarrow> jsstring list" where
  "split_lines [] = [[]]"
| "split_lines [c] = (if c = 10 then [[], []] else [[c]])"
| "split_lines (c # d # cs) =
     (if c = 10 then [] # split_lines (d # cs)
      else if c = 13 \<and> d = 10 then [] # split_lines cs
      else cons_first c (split_lines (d # cs)))"

text \<open>
  \<open>s.substring(a, b)\<close> and \<open>s.substring(a)\<close>: both arguments are clamped to
  \<open>[0, length]\<close> and swapped when the first is the larger.
\<close>

definition substring :: "jsstring \<Rightarrow> int \<Rightarrow> int \<Rightarrow> jsstring" where
  "substring s a b =
     (let n = int (length s);
          a' = min (max a 0) n;
          b' = min (max b 0) n;
          lo = min a' b';
          hi = max a' b'
      in take (nat (hi - lo)) (drop (nat lo) s))"

definition substring_from :: "jsstring \<Rightarrow> int \<Rightarrow> jsstring" where
  "substring_from s a = substring s a (int (length s))"

text \<open>\<open>s.indexOf(pat)\<close> (\<open>None\<close> for \<open>-1\<close>) and \<open>s.includes(pat)\<close>\<close>

fun indexOf :: "jsstring \<Rightarrow> jsstring \<Rightarrow> nat option" where
  "indexOf [] pat = (if pat = [] then Some 0 else None)"
| "indexOf (c # cs) pat =
     (if take (length pat) (c # cs) = pat then Some 0
      else map_option Suc (indexOf cs pat))"

definition includes_str :: "jsstring \<Rightarrow> jsstring \<Rightarrow> bool" where
  "includes_str s pat \<longleftrightarrow> indexOf s pat \<noteq> None"

text \<open>
  \<open>s.replace(pat, template)\<close> with a string pattern replaces the first occurrence
  only, and the replacement is the expansion of the template by the abstract operation
  GetSubstitution of ECMAScript: with a string pattern there are no captures, so the
  patterns that expand are \<open>$$\<close> (a dollar sign), \<open>$&\<close> (the matched text),
  \<open>$`\<close> (the text before the match) and \<open>$'\<close> (the text after it); every other
  character, also a \<open>$\<close> before a digit, is copied.
\<close>

fun GetSubstitution :: "jsstring \<Rightarrow> jsstring \<Rightarrow> nat \<Rightarrow> jsstring \<Rightarrow> jsstring" where
  "GetSubstitution matched str position [] = []"
| "GetSubstitution matched str position [c] = [c]"
| "GetSubstitution matched str position (c # d # t) =
     (if c = 36 \<and> d = 36 then 36 # GetSubstitution matched str position t
      else if c = 36 \<and> d = 38 then matched @ GetSubstitution matched str position t
      else if c = 36 \<and> d = 96 then take position str @ GetSubstitution matched str position t
      else if c = 36 \<and> d = 39 then
        drop (position + length matched) str @ GetSubstitution matched str position t
      else c # GetSubstitution matched str position (d # t))"

definition replace :: "jsstring \<Rightarrow> jsstring \<Rightarrow> jsstring \<Rightarrow> jsstring" where
  "replace s pat template =
     (case indexOf s pat of
        None \<Rightarrow> s
      | Some p \<Rightarrow> take p s @ GetSubstitution pat s p template @ drop (p + length pat) s)"

text \<open>The decimal digits of a non-negative integer, as a template literal prints it.\<close>

function decimal :: "nat \<Rightarrow> jsstring" where
  "decimal n = (if n < 10 then [48 + n] else decimal (n div 10) @ [48 + n mod 10])"
  by pat_completeness auto
termination
  by (relation "measure (\<lambda>n. n)") auto

section \<open>The two regular expressions of \<open>modularizeText\<close>\<close>

text \<open>
  A backtracking matcher tries the alternatives of each quantifier in a fixed order and
  keeps the first that lets the rest of the pattern match. \<open>greedy_star P s\<close> lists the
  ways \<open>P*\<close> can match at the start of \<open>s\<close>, as pairs of the matched text and the
  rest, the longest match first; \<open>lazy_star\<close> lists them the shortest first.
\<close>

fun greedy_star :: "(jschar \<Rightarrow> bool) \<Rightarrow> jsstring \<Rightarrow> (jsstring \<times> jsstring) list" where
  "greedy_star P [] = [([], [])]"
| "greedy_star P (c # cs) =
     (if P c then map (\<lambda>(m, r). (c # m, r)) (greedy_star P cs) else []) @ [([], c # cs)]"

fun lazy_star :: "(jschar \<Rightarrow> bool) \<Rightarrow> jsstring \<Rightarrow> (jsstring \<times> jsstring) list" where
  "lazy_star P [] = [([], [])]"
| "lazy_star P (c # cs) =
     ([], c # cs) # (if P c then map (\<lambda>(m, r). (c # m, r)) (lazy_star P cs) else [])"

definition greedy_plus :: "(jschar \<Rightarrow> bool) \<Rightarrow> jsstring \<Rightarrow> (jsstring \<times> jsstring) list" where
  "greedy_plus P s = filter (\<lambda>(m, r). m \<noteq> []) (greedy_star P s)"

definition lazy_plus :: "(jschar \<Rightarrow> bool) \<Rightarrow> jsstring \<Rightarrow> (jsstring \<times> jsstring) list" where
  "lazy_plus P s = filter (\<lambda>(m, r). m \<noteq> []) (lazy_star P s)"

definition greedy_at_least ::
  "nat \<Rightarrow> (jschar \<Rightarrow> bool) \<Rightarrow> jsstring \<Rightarrow> (jsstring \<times> jsstring) list" where
  "greedy_at_least n P s = filter (\<lambda>(m, r). n \<le> length m) (greedy_star P s)"

text \<open>The first alternative, in the order given, for which the continuation succeeds.\<close>

fun first_some :: "('a \<Rightarrow> 'b option) \<Rightarrow> 'a list \<Rightarrow> 'b option" where
  "first_some k [] = None"
| "first_some k (x # xs) = (case k x of Some y \<Rightarrow> Some y | None \<Rightarrow> first_some k xs)"

text \<open>\<open>$\<close> without the flag \<open>m\<close>: the end of the input.\<close>

definition at_end :: "'a \<Rightarrow> jsstring \<Rightarrow> 'a option" where
  "at_end result rest = (if rest = [] then Some result else None)"

text \<open>
  \<open>line.match(/^\s*(#+)\s*(.+?)\s*$/)\<close>: the captures 1 and 2 of the match, or
  \<open>None\<close> for \<open>null\<close>.
\<close>

definition hashHeaderMatch :: "jsstring \<Rightarrow> (jsstring \<times> jsstring) option" where
  "hashHeaderMatch line =
     first_some (\<lambda>(w1, r1).
       first_some (\<lambda>(g1, r2).
         first_some (\<lambda>(w2, r3).
           first_some (\<lambda>(g2, r4).
             first_some (\<lambda>(w3, r5). at_end (g1, g2) r5)
               (greedy_star isWhiteSpace r4))
             (lazy_plus isDot r3))
           (greedy_star isWhiteSpace r2))
         (greedy_plus isHash r1))
       (greedy_star isWhiteSpace line)"

text \<open>\<open>line.match(/^\s*([A-Z\s]{4,})\s*$/)\<close>: the capture 1 of the match.\<close>

definition upperHeaderMatch :: "jsstring \<Rightarrow> jsstring option" where
  "upperHeaderMatch line =
     first_some (\<lambda>(w1, r1).
       first_some (\<lambda>(g1, r2).
         first_some (\<lambda>(w3, r3). at_end g1 r3)
           (greedy_star isWhiteSpace r2))
         (greedy_at_least 4 isUpperOrSpace r1))
       (greedy_star isWhiteSpace line)"

text \<open>
  \<open>headerMatch\<close>: the first expression that matches; capture 2 is \<open>undefined\<close> in a
  match of the second expression. \<open>header_text\<close> is \<open>headerMatch[2] || headerMatch[1]\<close>.
\<close>

definition headerMatch :: "jsstring \<Rightarrow> (jsstring \<times> jsstring option) option" where
  "headerMatch line =
     (case hashHeaderMatch line of
        Some (g1, g2) \<Rightarrow> Some (g1, Some g2)
      | None \<Rightarrow> map_option (\<lambda>g1. (g1, None)) (upperHeaderMatch line))"

fun header_text :: "jsstring \<times> jsstring option \<Rightarrow> jsstring" where
  "header_text (g1, None) = g1"
| "header_text (g1, Some g2) = (if g2 \<noteq> [] then g2 else g1)"

section \<open>Sections and \<open>modularizeText\<close>\<close>

record PaperSection =
  sec_id :: jsstring
  title :: jsstring
  content :: jsstring

definition INITIAL_SECTIONS :: "PaperSection list" where
  "INITIAL_SECTIONS =
     [\<lparr>sec_id = js ''abstract'', title = js ''Abstract'',
       content = js ''Artificial Intelligence (AI) has rapidly evolved, becoming a tapestry of innovation in various fields. It is paramount to underscore the significance of Large Language Models (LLMs) in this landscape.''\<rparr>,
      \<lparr>sec_id = js ''intro'', title = js ''Introduction'',
       content = js ''The rapid proliferation of digital technologies has ushered in a new era of information dissemination. It is important to note that the data landscape is shifting.''\<rparr>,
      \<lparr>sec_id = js ''methods'', title = js ''Methods'',
       content = js ''We utilize a novel framework to assess the performance of transformers in zero-shot environments.''\<rparr>,
      \<lparr>sec_id = js ''refs'', title = js ''References'', content = []\<rparr>]"

text \<open>
  The variables of the loop of \<open>modularizeText\<close>. \<open>Date.now()\<close> is read at every
  \<open>push\<close>; \<open>now k\<close> is the reading at the push of the section with ordinal \<open>k\<close>.
\<close>

record mod_state =
  acc_sections :: "PaperSection list"
  currentHeader :: jsstring
  currentContent :: "jsstring list"
  sectionCount :: nat

definition mod_init :: mod_state where
  "mod_init = \<lparr>acc_sections = [], currentHeader = [], currentContent = [], sectionCount = 0\<rparr>"

text \<open>
  \<open>if (currentContent.length > 0 || currentHeader) sections.push({...})\<close>, with the
  title \<open>currentHeader || fallback\<close>.
\<close>

definition push_section :: "(nat \<Rightarrow> nat) \<Rightarrow> jsstring \<Rightarrow> mod_state \<Rightarrow> mod_state" where
  "push_section now fallback st =
     (if currentContent st \<noteq> [] \<or> currentHeader st \<noteq> [] then
        st\<lparr>acc_sections := acc_sections st @
             [\<lparr>sec_id = js ''sec-'' @ decimal (sectionCount st) @ js ''-''
                        @ decimal (now (sectionCount st)),
               title = (if currentHeader st \<noteq> [] then currentHeader st else fallback),
               content = trim (join [10] (currentContent st))\<rparr>],
           sectionCount := Suc (sectionCount st)\<rparr>
      else st)"

text \<open>The body of \<open>lines.forEach\<close>.\<close>

definition line_step :: "(nat \<Rightarrow> nat) \<Rightarrow> mod_state \<Rightarrow> jsstring \<Rightarrow> mod_state" where
  "line_step now st line =
     (case headerMatch line of
        Some hm \<Rightarrow>
          (push_section now (js ''Front Matter'') st)
            \<lparr>currentHeader := header_text hm, currentContent := []\<rparr>
      | None \<Rightarrow> st\<lparr>currentContent := currentContent st @ [line]\<rparr>)"

definition modularizeText :: "(nat \<Rightarrow> nat) \<Rightarrow> jsstring \<Rightarrow> PaperSection list" where
  "modularizeText now text =
     (let st = push_section now (js ''Introduction'')
                 (foldl (line_step now) mod_init (split_lines text))
      in if acc_sections st = [] then INITIAL_SECTIONS else acc_sections st)"

section \<open>The state of \<open>App\<close> and its handlers\<close>

record AnalysisIssue =
  issue_id :: jsstring
  issue_title :: jsstring
  description :: jsstring
  replacement :: "jsstring option"
  snippet :: "jsstring option"

record AnalysisResult =
  issues :: "AnalysisIssue list"
  generalFeedback :: jsstring
  loading :: bool

record Selection =
  sel_text :: jsstring
  sel_start :: int
  sel_end :: int
  sectionId :: "jsstring option"

record app_state =
  sections :: "PaperSection list"
  activeSectionId :: jsstring
  isFullDocMode :: bool
  analysisResult :: "AnalysisResult option"
  previewingIssue :: "AnalysisIssue option"
  selection :: "Selection option"
  showMicroEditTooltip :: bool

text \<open>\<open>!x\<close> for an optional string: \<open>undefined\<close> and \<open>''\<close> are falsy.\<close>

definition falsy :: "jsstring option \<Rightarrow> bool" where
  "falsy x \<longleftrightarrow> x = None \<or> x = Some []"

text \<open>\<open>sections.map(s => `# ${s.title}\n\n${s.content}`).join('\n\n')\<close>\<close>

definition fullText :: "PaperSection list \<Rightarrow> jsstring" where
  "fullText secs = join [10, 10] (map (\<lambda>s. js ''# '' @ title s @ [10, 10] @ content s) secs)"

text \<open>
  The callback of \<open>prev.map\<close> in \<open>handleConfirmFix\<close>:
  \<open>s.content.includes(snippet) ? { ...s, content: s.content.replace(snippet, replacement) } : s\<close>
\<close>

definition fixSection :: "jsstring \<Rightarrow> jsstring \<Rightarrow> PaperSection \<Rightarrow> PaperSection" where
  "fixSection snip repl s =
     (if includes_str (content s) snip then s\<lparr>content := replace (content s) snip repl\<rparr> else s)"

definition handleConfirmFix :: "AnalysisIssue \<Rightarrow> app_state \<Rightarrow> app_state" where
  "handleConfirmFix issue st =
     (if falsy (snippet issue) \<or> falsy (replacement issue) then st
      else st\<lparr>sections := map (fixSection (the (snippet issue)) (the (replacement issue)))
                             (sections st),
              previewingIssue := None,
              analysisResult :=
                (case analysisResult st of
                   None \<Rightarrow> None
                 | Some r \<Rightarrow>
                     Some (r\<lparr>issues := filter (\<lambda>i. issue_id i \<noteq> issue_id issue) (issues r)\<rparr>))\<rparr>)"

text \<open>
  The splice that both branches of \<open>updateDocumentAtSelection\<close> compute:
  \<open>body.substring(0, start) + newSegment + body.substring(end)\<close>
\<close>

definition spliceAtOffsets :: "jsstring \<Rightarrow> int \<Rightarrow> int \<Rightarrow> jsstring \<Rightarrow> jsstring" where
  "spliceAtOffsets body start_off end_off newSegment =
     substring body 0 start_off @ newSegment @ substring_from body end_off"

definition updateDocumentAtSelection ::
  "(nat \<Rightarrow> nat) \<Rightarrow> jsstring \<Rightarrow> bool \<Rightarrow> app_state \<Rightarrow> app_state" where
  "updateDocumentAtSelection now newSegment skipSelectionReset st =
     (case selection st of
        None \<Rightarrow> st
      | Some sel \<Rightarrow>
          (let st1 =
             (if isFullDocMode st \<and> falsy (sectionId sel) then
                st\<lparr>sections := modularizeText now
                     (spliceAtOffsets (fullText (sections st)) (sel_start sel) (sel_end sel)
                        newSegment)\<rparr>
              else
                (let targetId = (if falsy (sectionId sel) then activeSectionId st
                                 else the (sectionId sel))
                 in st\<lparr>sections :=
                      map (\<lambda>s. if sec_id s = targetId
                                then s\<lparr>content := spliceAtOffsets (content s) (sel_start sel)
                                                    (sel_end sel) newSegment\<rparr>
                                else s)
                          (sections st)\<rparr>))
           in if \<not> skipSelectionReset
              then st1\<lparr>selection := None, showMicroEditTooltip := False\<rparr>
              else st1))"

section \<open>Auxiliary notions\<close>

text \<open>
  The notions of this section are not part of the program; the proofs below use them.
  \<open>skip_ws F s\<close> is what a greedy \<open>\s*\<close> followed by a continuation \<open>F\<close> of the rest
  computes, and \<open>shortest_dot s\<close> is the capture of a lazy \<open>(.+?)\<close> that must be
  followed by \<open>\s*$\<close>. \<open>title_ok\<close> is the shape of a title captured by the first
  regular expression, and \<open>titles_inv\<close> the invariant of the loop of
  \<open>modularizeText\<close> after the lines \<open>ps\<close>. \<open>no_pattern\<close> says that a
  replacement has no \<open>$\<close> followed by \<open>$\<close>, \<open>&\<close>, a backtick or a quote, the
  replacement patterns of \<open>replace\<close>. \<open>no_crlf\<close> says that no CR stands
  immediately before an LF; \<open>plain_line\<close> that a line has no LF and does not end
  with a CR; \<open>good_content\<close> and \<open>good_section\<close> describe the sections that
  \<open>modularizeText\<close> emits for a text without uppercase headings, and \<open>fp_inv\<close> is
  the invariant of the loop that gives them.
\<close>

fun skip_ws :: "(jsstring \<Rightarrow> 'a option) \<Rightarrow> jsstring \<Rightarrow> 'a option" where
  "skip_ws F [] = F []"
| "skip_ws F (c # cs) =
     (if isWhiteSpace c
      then (case skip_ws F cs of Some y \<Rightarrow> Some y | None \<Rightarrow> F (c # cs))
      else F (c # cs))"

fun shortest_dot :: "jsstring \<Rightarrow> jsstring option" where
  "shortest_dot [] = None"
| "shortest_dot (c # cs) =
     (if isDot c
      then (if list_all isWhiteSpace cs then Some [c] else map_option ((#) c) (shortest_dot cs))
      else None)"

definition title_ok :: "jsstring \<Rightarrow> bool" where
  "title_ok t \<longleftrightarrow> t \<noteq> [] \<and> list_all isDot t
     \<and> (length t = 1 \<or> (\<not> isWhiteSpace (hd t) \<and> \<not> isWhiteSpace (last t)))"

definition titles_inv :: "mod_state \<Rightarrow> jsstring list \<Rightarrow> bool" where
  "titles_inv st ps \<longleftrightarrow>
     (if List.map_filter headerMatch ps = []
      then acc_sections st = [] \<and> currentHeader st = [] \<and> currentContent st = ps
      else currentHeader st = header_text (last (List.map_filter headerMatch ps))
           \<and> map title (acc_sections st)
               = (if headerMatch (hd ps) = None then [js ''Front Matter''] else [])
                 @ map header_text (butlast (List.map_filter headerMatch ps)))"

fun no_pattern :: "jsstring \<Rightarrow> bool" where
  "no_pattern [] = True"
| "no_pattern [c] = True"
| "no_pattern (c # d # t) =
     (\<not> (c = 36 \<and> (d = 36 \<or> d = 38 \<or> d = 96 \<or> d = 39)) \<and> no_pattern (d # t))"

fun no_crlf :: "jsstring \<Rightarrow> bool" where
  "no_crlf [] = True"
| "no_crlf [c] = True"
| "no_crlf (c # d # s) = (\<not> (c = 13 \<and> d = 10) \<and> no_crlf (d # s))"

definition good_content :: "jsstring \<Rightarrow> bool" where
  "good_content c \<longleftrightarrow>
     trim c = c \<and> no_crlf c \<and> (\<forall>l\<in>set (split_lines c). headerMatch l = None)"

definition good_section :: "PaperSection \<Rightarrow> bool" where
  "good_section s \<longleftrightarrow> title_ok (title s) \<and> good_content (content s)"

definition plain_line :: "jsstring \<Rightarrow> bool" where
  "plain_line l \<longleftrightarrow> 10 \<notin> set l \<and> (l = [] \<or> last l \<noteq> 13)"

definition fp_inv :: "mod_state \<Rightarrow> bool" where
  "fp_inv st \<longleftrightarrow>
     (\<forall>s\<in>set (acc_sections st). good_section s)
     \<and> (currentHeader st = [] \<or> title_ok (currentHeader st))
     \<and> (\<forall>l\<in>set (currentContent st). plain_line l \<and> headerMatch l = None)"

abbreviation (input) tc :: "PaperSection \<Rightarrow> jsstring \<times> jsstring" where
  "tc \<equiv> \<lambda>s. (title s, content s)"

section \<open>Example data\<close>

text \<open>A document of three sections, an issue and a state of \<open>App\<close>, used to run the handlers.\<close>

abbreviation (input) demo_sections :: "PaperSection list" where
  "demo_sections \<equiv>
     [\<lparr>sec_id = js ''abstract'', title = js ''Abstract'', content = js ''The cat sat on a cat.''\<rparr>,
      \<lparr>sec_id = js ''intro'', title = js ''Introduction'', content = js ''No animals here.''\<rparr>,
      \<lparr>sec_id = js ''methods'', title = js ''Methods'', content = js ''A cat ran.''\<rparr>]"

abbreviation (input) demo_issue :: "jsstring \<Rightarrow> jsstring option \<Rightarrow> AnalysisIssue" where
  "demo_issue snip repl \<equiv>
     \<lparr>issue_id = js ''i1'', issue_title = js ''Wording'', description = js ''Reword'',
      replacement = repl, snippet = Some snip\<rparr>"

abbreviation (input) demo_state :: "AnalysisIssue \<Rightarrow> Selection option \<Rightarrow> app_state" where
  "demo_state issue sel \<equiv>
     \<lparr>sections = demo_sections, activeSectionId = js ''abstract'', isFullDocMode = True,
      analysisResult = Some \<lparr>issues = [issue], generalFeedback = [], loading = False\<rparr>,
      previewingIssue = Some issue, selection = sel, showMicroEditTooltip = True\<rparr>"

section \<open>Strings: substring, indexOf, replace\<close>

declare decimal.simps [simp del]

lemma substring_prefix: "0 \<le> a \<Longrightarrow> a \<le> int (length s) \<Longrightarrow> substring s 0 a = take (nat a) s"
  by (simp add: substring_def Let_def min_def max_def)

lemma substring_from_suffix:
  assumes "0 \<le> a" and "a \<le> int (length s)"
  shows "substring_from s a = drop (nat a) s"
proof -
  have le: "length s - nat a \<le> nat (int (length s) - a)"
    using assms by linarith
  show ?thesis
    using assms le by (simp add: substring_from_def substring_def Let_def min_def max_def)
qed

lemma indexOf_first:
  "indexOf s pat = Some p \<Longrightarrow>
     take (length pat) (drop p s) = pat \<and> p + length pat \<le> length s
     \<and> (\<forall>q<p. take (length pat) (drop q s) \<noteq> pat)"
proof (induction s arbitrary: p)
  case Nil
  then show ?case by (simp split: if_splits)
next
  case (Cons c cs)
  show ?case
  proof (cases "take (length pat) (c # cs) = pat")
    case True
    with Cons.prems have "p = 0" by simp
    moreover from True have "length (take (length pat) (c # cs)) = length pat"
      by simp
    then have "length pat \<le> length (c # cs)"
      by simp
    ultimately show ?thesis using True by simp
  next
    case False
    with Cons.prems obtain p' where p': "indexOf cs pat = Some p'" "p = Suc p'"
      by auto
    from Cons.IH [OF p'(1)] have IH: "take (length pat) (drop p' cs) = pat"
      "p' + length pat \<le> length cs" "\<forall>q<p'. take (length pat) (drop q cs) \<noteq> pat" by auto
    have "\<forall>q<p. take (length pat) (drop q (c # cs)) \<noteq> pat"
    proof (intro allI impI)
      fix q assume "q < p"
      show "take (length pat) (drop q (c # cs)) \<noteq> pat"
      proof (cases q)
        case 0 then show ?thesis using False by simp
      next
        case (Suc q')
        with \<open>q < p\<close> p'(2) have "q' < p'" by simp
        with IH(3) Suc show ?thesis by simp
      qed
    qed
    with IH p'(2) show ?thesis by simp
  qed
qed

lemma indexOf_lowest:
  "p + length pat \<le> length s \<Longrightarrow> take (length pat) (drop p s) = pat \<Longrightarrow>
   \<forall>q<p. take (length pat) (drop q s) \<noteq> pat \<Longrightarrow> indexOf s pat = Some p"
proof (induction s arbitrary: p)
  case Nil
  then show ?case by simp
next
  case (Cons c cs)
  show ?case
  proof (cases "take (length pat) (c # cs) = pat")
    case True
    have "p = 0"
    proof (rule ccontr)
      assume "p \<noteq> 0"
      then have "0 < p" by simp
      with Cons.prems(3) have "take (length pat) (drop 0 (c # cs)) \<noteq> pat" by blast
      with True show False by simp
    qed
    with True show ?thesis by simp
  next
    case False
    with Cons.prems(2) have "p \<noteq> 0" by (cases p) auto
    then obtain p' where p': "p = Suc p'" by (cases p) auto
    have "\<forall>q<p'. take (length pat) (drop q cs) \<noteq> pat"
    proof (intro allI impI)
      fix q assume "q < p'"
      then have "Suc q < p" using p' by simp
      with Cons.prems(3) have "take (length pat) (drop (Suc q) (c # cs)) \<noteq> pat" by blast
      then show "take (length pat) (drop q cs) \<noteq> pat" by simp
    qed
    with Cons.prems(1,2) p' have "indexOf cs pat = Some p'"
      by (intro Cons.IH) simp_all
    with False p' show ?thesis by simp
  qed
qed

lemma GetSubstitution_no_pattern:
  "no_pattern template \<Longrightarrow> GetSubstitution matched str position template = template"
  by (induction matched str position template rule: GetSubstitution.induct) auto

lemma GetSubstitution_no_dollar:
  "36 \<notin> set template \<Longrightarrow> GetSubstitution matched str position template = template"
  by (induction matched str position template rule: GetSubstitution.induct) auto

lemma sections_handleConfirmFix:
  "\<not> falsy (snippet issue) \<Longrightarrow> \<not> falsy (replacement issue) \<Longrightarrow>
   sections (handleConfirmFix issue st)
     = map (fixSection (the (snippet issue)) (the (replacement issue))) (sections st)"
  by (simp add: handleConfirmFix_def)

lemma fixSection_frame: "sec_id (fixSection snip repl s) = sec_id s \<and> title (fixSection snip repl s) = title s"
  by (simp add: fixSection_def)

section \<open>The offset splice\<close>

text \<open>
  Claim C6. For offsets with \<open>0 \<le> start \<le> end \<le> length body\<close> the splice is
  \<open>body[0:start] + newSegment + body[end:]\<close>; when \<open>start = end\<close> nothing of the
  body is deleted: the part before and the part after the offset make up the whole body,
  and the result is longer than the body by the length of the inserted text.
\<close>

theorem spliceAtOffsets_contract:
  assumes "0 \<le> start_off" and "start_off \<le> end_off" and "end_off \<le> int (length body)"
  shows "spliceAtOffsets body start_off end_off newSegment
           = take (nat start_off) body @ newSegment @ drop (nat end_off) body
         \<and> (start_off = end_off \<longrightarrow>
              take (nat start_off) body @ drop (nat end_off) body = body
              \<and> length (spliceAtOffsets body start_off end_off newSegment)
                  = length body + length newSegment)"
proof -
  have eq: "spliceAtOffsets body start_off end_off newSegment
           = take (nat start_off) body @ newSegment @ drop (nat end_off) body"
    using assms by (simp add: spliceAtOffsets_def substring_prefix substring_from_suffix)
  have len: "length (take (nat end_off) body @ newSegment @ drop (nat end_off) body)
               = length body + length newSegment"
    using assms by simp
  show ?thesis using eq len by auto
qed

theorem spliceAtOffsets_contract_witness:
  "(0::int) \<le> 2 \<and> (2::int) \<le> 2 \<and> 2 \<le> int (length (js ''abcd''))
   \<and> spliceAtOffsets (js ''abcd'') 2 2 (js ''XY'') = js ''abXYcd''
   \<and> length (spliceAtOffsets (js ''abcd'') 2 2 (js ''XY'')) = 6"
  using spliceAtOffsets_contract [of 2 2 "js ''abcd''" "js ''XY''"] by simp

text \<open>
  Claim C7. A splice that targets one section maps over the sections. The target is
  the id \<open>sid\<close>: the non-empty \<open>sectionId\<close> of the selection, whatever
  \<open>isFullDocMode\<close> is, or, for a selection without \<open>sectionId\<close> outside the
  full-document mode, the active section id. The number and order of the sections stay
  as they are, and so do the id and title of the section at every position \<open>i\<close>; a
  section with another id is unchanged, and the content of a section with the id
  \<open>sid\<close> is spliced. The text is not run through \<open>modularizeText\<close>.
\<close>

theorem section_splice_frame:
  assumes "selection st = Some sel"
    and "(sectionId sel = Some sid \<and> sid \<noteq> [])
         \<or> (falsy (sectionId sel) \<and> \<not> isFullDocMode st \<and> sid = activeSectionId st)"
    and "i < length (sections st)"
  shows "length (sections (updateDocumentAtSelection now newSegment skip st))
           = length (sections st)
         \<and> sec_id (sections (updateDocumentAtSelection now newSegment skip st) ! i)
             = sec_id (sections st ! i)
         \<and> title (sections (updateDocumentAtSelection now newSegment skip st) ! i)
             = title (sections st ! i)
         \<and> (sec_id (sections st ! i) = sid \<longrightarrow>
              content (sections (updateDocumentAtSelection now newSegment skip st) ! i)
                = spliceAtOffsets (content (sections st ! i)) (sel_start sel)
                    (sel_end sel) newSegment)
         \<and> (sec_id (sections st ! i) \<noteq> sid \<longrightarrow>
              sections (updateDocumentAtSelection now newSegment skip st) ! i
                = sections st ! i)"
proof -
  let ?f = "\<lambda>s. if sec_id s = sid
                 then s\<lparr>content := spliceAtOffsets (content s) (sel_start sel) (sel_end sel)
                                     newSegment\<rparr>
                 else s"
  from assms(2) have secs: "sections (updateDocumentAtSelection now newSegment skip st)
                = map ?f (sections st)"
  proof
    assume "sectionId sel = Some sid \<and> sid \<noteq> []"
    with assms(1) show ?thesis
      by (simp add: updateDocumentAtSelection_def falsy_def Let_def)
  next
    assume "falsy (sectionId sel) \<and> \<not> isFullDocMode st \<and> sid = activeSectionId st"
    with assms(1) show ?thesis
      by (simp add: updateDocumentAtSelection_def Let_def)
  qed
  show ?thesis unfolding secs using assms(3) by simp
qed

theorem section_splice_frame_witness:
  "length (sections (updateDocumentAtSelection id (js ''XY'') False
      (demo_state (demo_issue (js ''cat'') None)
         (Some \<lparr>sel_text = js ''ca'', sel_start = 2, sel_end = 4,
                 sectionId = Some (js ''methods'')\<rparr>)))) = 3
   \<and> sections (updateDocumentAtSelection id (js ''XY'') False
      (demo_state (demo_issue (js ''cat'') None)
         (Some \<lparr>sel_text = js ''ca'', sel_start = 2, sel_end = 4,
                 sectionId = Some (js ''methods'')\<rparr>))) ! 2
     = \<lparr>sec_id = js ''methods'', title = js ''Methods'', content = js ''A XYt ran.''\<rparr>
   \<and> sections (updateDocumentAtSelection id (js ''XY'') False
      ((demo_state (demo_issue (js ''cat'') None)
         (Some \<lparr>sel_text = js ''cat'', sel_start = 4, sel_end = 7, sectionId = None\<rparr>))
        \<lparr>isFullDocMode := False\<rparr>)) ! 0
     = \<lparr>sec_id = js ''abstract'', title = js ''Abstract'', content = js ''The XY sat on a cat.''\<rparr>
   \<and> sections (updateDocumentAtSelection id (js ''XY'') False
      ((demo_state (demo_issue (js ''cat'') None)
         (Some \<lparr>sel_text = js ''cat'', sel_start = 4, sel_end = 7, sectionId = None\<rparr>))
        \<lparr>isFullDocMode := False\<rparr>)) ! 2
     = \<lparr>sec_id = js ''methods'', title = js ''Methods'', content = js ''A cat ran.''\<rparr>"
  using section_splice_frame
    [of "demo_state (demo_issue (js ''cat'') None)
           (Some \<lparr>sel_text = js ''ca'', sel_start = 2, sel_end = 4,
                   sectionId = Some (js ''methods'')\<rparr>)"
        "\<lparr>sel_text = js ''ca'', sel_start = 2, sel_end = 4, sectionId = Some (js ''methods'')\<rparr>"
        "js ''methods''" 2 id "js ''XY''" False]
    section_splice_frame
    [of "(demo_state (demo_issue (js ''cat'') None)
           (Some \<lparr>sel_text = js ''cat'', sel_start = 4, sel_end = 7, sectionId = None\<rparr>))
          \<lparr>isFullDocMode := False\<rparr>"
        "\<lparr>sel_text = js ''cat'', sel_start = 4, sel_end = 7, sectionId = None\<rparr>"
        "js ''abstract''" 0 id "js ''XY''" False]
    section_splice_frame
    [of "(demo_state (demo_issue (js ''cat'') None)
           (Some \<lparr>sel_text = js ''cat'', sel_start = 4, sel_end = 7, sectionId = None\<rparr>))
          \<lparr>isFullDocMode := False\<rparr>"
        "\<lparr>sel_text = js ''cat'', sel_start = 4, sel_end = 7, sectionId = None\<rparr>"
        "js ''abstract''" 2 id "js ''XY''" False]
  by (simp add: falsy_def spliceAtOffsets_def substring_def substring_from_def Let_def)

section \<open>Confirming a fix\<close>

text \<open>
  Claim C10. An issue whose replacement is absent or the empty string makes
  \<open>handleConfirmFix\<close> return at once: the whole state, and with it every section and
  the list of pending issues, is unchanged.
\<close>

theorem confirm_fix_without_replacement:
  "falsy (replacement issue) \<Longrightarrow> handleConfirmFix issue st = st"
  by (simp add: handleConfirmFix_def)

theorem confirm_fix_without_replacement_witness:
  "handleConfirmFix (demo_issue (js ''cat'') None)
     (demo_state (demo_issue (js ''cat'') None) None)
   = demo_state (demo_issue (js ''cat'') None) None
   \<and> handleConfirmFix (demo_issue (js ''cat'') (Some []))
     (demo_state (demo_issue (js ''cat'') (Some [])) None)
   = demo_state (demo_issue (js ''cat'') (Some [])) None"
  using confirm_fix_without_replacement
    [of "demo_issue (js ''cat'') None" "demo_state (demo_issue (js ''cat'') None) None"]
    confirm_fix_without_replacement
    [of "demo_issue (js ''cat'') (Some [])" "demo_state (demo_issue (js ''cat'') (Some [])) None"]
  by (simp add: falsy_def)

text \<open>
  Claim C1, as the code has it. With a non-empty snippet and a non-empty replacement,
  \<open>handleConfirmFix\<close> maps over all the sections: the number and order of the sections
  and the id and title of each are kept, every section whose content contains the
  snippet has its content replaced by \<open>content.replace(snippet, replacement)\<close> (not
  only the first such section), and a section whose content does not contain the
  snippet is unchanged.
\<close>

theorem confirm_fix_every_matching_section:
  assumes "snippet issue = Some snip" and "snip \<noteq> []"
    and "replacement issue = Some repl" and "repl \<noteq> []"
    and "i < length (sections st)"
  shows "length (sections (handleConfirmFix issue st)) = length (sections st)
         \<and> sec_id (sections (handleConfirmFix issue st) ! i) = sec_id (sections st ! i)
         \<and> title (sections (handleConfirmFix issue st) ! i) = title (sections st ! i)
         \<and> (includes_str (content (sections st ! i)) snip \<longrightarrow>
              content (sections (handleConfirmFix issue st) ! i)
                = replace (content (sections st ! i)) snip repl)
         \<and> (\<not> includes_str (content (sections st ! i)) snip \<longrightarrow>
              sections (handleConfirmFix issue st) ! i = sections st ! i)"
proof -
  have secs: "sections (handleConfirmFix issue st) = map (fixSection snip repl) (sections st)"
    using assms(1-4) by (simp add: sections_handleConfirmFix falsy_def)
  show ?thesis unfolding secs using assms(5) by (simp add: fixSection_def)
qed

theorem confirm_fix_every_matching_section_witness:
  "length (sections (handleConfirmFix (demo_issue (js ''cat'') (Some (js ''dog'')))
               (demo_state (demo_issue (js ''cat'') (Some (js ''dog''))) None))) = 3
   \<and> sections (handleConfirmFix (demo_issue (js ''cat'') (Some (js ''dog'')))
               (demo_state (demo_issue (js ''cat'') (Some (js ''dog''))) None)) ! 2
     = \<lparr>sec_id = js ''methods'', title = js ''Methods'', content = js ''A dog ran.''\<rparr>"
  using confirm_fix_every_matching_section
    [of "demo_issue (js ''cat'') (Some (js ''dog''))" "js ''cat''" "js ''dog''" 2
        "demo_state (demo_issue (js ''cat'') (Some (js ''dog''))) None"]
  by (simp add: includes_str_def replace_def)

text \<open>
  The claim C1 as stated fails: the first and the third section of the example document
  both contain \<open>cat\<close>, and the fix changes the third section too.
\<close>

theorem first_section_only_counterexample:
  "includes_str (content (demo_sections ! 0)) (js ''cat'')
   \<and> includes_str (content (demo_sections ! 2)) (js ''cat'')
   \<and> content (demo_sections ! 2) = js ''A cat ran.''
   \<and> content (sections (handleConfirmFix (demo_issue (js ''cat'') (Some (js ''dog'')))
                 (demo_state (demo_issue (js ''cat'') (Some (js ''dog''))) None)) ! 2)
       = js ''A dog ran.''"
  by (simp add: handleConfirmFix_def falsy_def fixSection_def includes_str_def replace_def)

text \<open>
  Claim C3, as the code has it. When no section's content contains the snippet, every
  section is left as it is. The handler has no \<open>applied\<close> flag, and when the snippet
  and the replacement are non-empty it goes on as after a successful fix: the preview is
  cleared, and the issue is removed from the pending issues of the analysis result.
\<close>

theorem confirm_fix_snippet_absent:
  assumes "snippet issue = Some snip"
    and "\<forall>s\<in>set (sections st). \<not> includes_str (content s) snip"
  shows "sections (handleConfirmFix issue st) = sections st
         \<and> (snip \<noteq> [] \<and> \<not> falsy (replacement issue) \<longrightarrow>
              previewingIssue (handleConfirmFix issue st) = None
              \<and> analysisResult (handleConfirmFix issue st)
                  = map_option
                      (\<lambda>r. r\<lparr>issues := filter (\<lambda>i. issue_id i \<noteq> issue_id issue) (issues r)\<rparr>)
                      (analysisResult st))"
proof -
  have "map (fixSection snip repl) (sections st) = sections st" for repl
    using assms(2) by (simp add: map_idI fixSection_def)
  then have "sections (handleConfirmFix issue st) = sections st"
    using assms(1) by (simp add: handleConfirmFix_def)
  then show ?thesis
    using assms(1) by (auto simp: handleConfirmFix_def falsy_def split: option.splits)
qed

theorem confirm_fix_snippet_absent_witness:
  "sections (handleConfirmFix (demo_issue (js ''dog'') (Some (js ''cat'')))
               (demo_state (demo_issue (js ''dog'') (Some (js ''cat''))) None))
     = demo_sections
   \<and> analysisResult (handleConfirmFix (demo_issue (js ''dog'') (Some (js ''cat'')))
               (demo_state (demo_issue (js ''dog'') (Some (js ''cat''))) None))
     = Some \<lparr>issues = [], generalFeedback = [], loading = False\<rparr>"
  using confirm_fix_snippet_absent
    [of "demo_issue (js ''dog'') (Some (js ''cat''))" "js ''dog''"
        "demo_state (demo_issue (js ''dog'') (Some (js ''cat''))) None"]
  by (simp add: falsy_def includes_str_def)

text \<open>
  The claim C3 as stated fails: no section of the example document contains \<open>dog\<close>,
  the issue is the one pending issue before the call, and no issue is pending after it.
\<close>

theorem issue_kept_counterexample:
  "\<not> includes_str (content (demo_sections ! 0)) (js ''dog'')
   \<and> \<not> includes_str (content (demo_sections ! 1)) (js ''dog'')
   \<and> \<not> includes_str (content (demo_sections ! 2)) (js ''dog'')
   \<and> analysisResult (demo_state (demo_issue (js ''dog'') (Some (js ''cat''))) None)
       = Some \<lparr>issues = [demo_issue (js ''dog'') (Some (js ''cat''))],
               generalFeedback = [], loading = False\<rparr>
   \<and> analysisResult (handleConfirmFix (demo_issue (js ''dog'') (Some (js ''cat'')))
               (demo_state (demo_issue (js ''dog'') (Some (js ''cat''))) None))
       = Some \<lparr>issues = [], generalFeedback = [], loading = False\<rparr>"
  by (simp add: handleConfirmFix_def falsy_def fixSection_def includes_str_def replace_def)

text \<open>
  Claim C4. The fix is to replace the occurrence of the snippet at the lowest offset by
  the replacement, literally. The code calls \<open>content.replace(snippet, replacement)\<close>,
  which reads the replacement as a template: \<open>$&\<close> stands for the matched text and
  \<open>$$\<close> for one dollar sign. With the snippet \<open>cat\<close>, the replacement \<open>$&s\<close>
  turns \<open>The cat sat on a cat.\<close> into \<open>The cats sat on a cat.\<close>, where the
  replacement taken literally gives \<open>The $&s sat on a cat.\<close>; and the replacement
  \<open>$$5\<close> is inserted as \<open>$5\<close>.
\<close>

theorem confirm_fix_replacement_pattern:
  "content (sections (handleConfirmFix (demo_issue (js ''cat'') (Some (js ''$&s'')))
               (demo_state (demo_issue (js ''cat'') (Some (js ''$&s''))) None)) ! 0)
     = js ''The cats sat on a cat.''
   \<and> take 4 (js ''The cat sat on a cat.'') @ js ''$&s'' @ drop 7 (js ''The cat sat on a cat.'')
     = js ''The $&s sat on a cat.''
   \<and> content (sections (handleConfirmFix (demo_issue (js ''cat'') (Some (js ''$$5'')))
               (demo_state (demo_issue (js ''cat'') (Some (js ''$$5''))) None)) ! 0)
     = js ''The $5 sat on a cat.''"
  by (simp add: handleConfirmFix_def falsy_def fixSection_def includes_str_def replace_def)

text \<open>
  Where the replacement has none of the patterns \<open>$$\<close>, \<open>$&\<close>, \<open>$`\<close> and
  \<open>$'\<close> (it may have other \<open>$\<close>), the fix is literal. Take a non-empty snippet,
  such a non-empty replacement, and a section in whose content the snippet occurs,
  \<open>p\<close> being the lowest offset at which it does. Then the content of that section
  becomes the content with the occurrence at \<open>p\<close> replaced by the replacement,
  character for character; everything before and after that occurrence, later
  occurrences too, is kept.
\<close>

lemma confirm_fix_first_occurrence:
  assumes "snippet issue = Some snip" and "snip \<noteq> []"
    and "replacement issue = Some repl" and "repl \<noteq> []" and "no_pattern repl"
    and "i < length (sections st)"
    and "p + length snip \<le> length (content (sections st ! i))"
    and "take (length snip) (drop p (content (sections st ! i))) = snip"
    and "\<forall>q<p. take (length snip) (drop q (content (sections st ! i))) \<noteq> snip"
  shows "content (sections (handleConfirmFix issue st) ! i)
           = take p (content (sections st ! i)) @ repl
             @ drop (p + length snip) (content (sections st ! i))"
proof -
  let ?body = "content (sections st ! i)"
  have p: "indexOf ?body snip = Some p"
    using assms(7-9) by (rule indexOf_lowest)
  have secs: "sections (handleConfirmFix issue st) = map (fixSection snip repl) (sections st)"
    using assms(1-4) by (simp add: sections_handleConfirmFix falsy_def)
  have "content (sections (handleConfirmFix issue st) ! i) = replace ?body snip repl"
    unfolding secs using assms(6) p by (simp add: fixSection_def includes_str_def)
  also have "\<dots> = take p ?body @ repl @ drop (p + length snip) ?body"
    using p assms(5) by (simp add: replace_def GetSubstitution_no_pattern)
  finally show ?thesis .
qed

lemma confirm_fix_first_occurrence_example:
  "content (sections (handleConfirmFix (demo_issue (js ''cat'') (Some (js ''$5 dog'')))
               (demo_state (demo_issue (js ''cat'') (Some (js ''$5 dog''))) None)) ! 0)
     = js ''The $5 dog sat on a cat.''"
proof -
  have low: "\<forall>q<4. take (length (js ''cat''))
               (drop q (content (sections
                  (demo_state (demo_issue (js ''cat'') (Some (js ''$5 dog''))) None) ! 0)))
             \<noteq> js ''cat''"
  proof (intro allI impI)
    fix q :: nat
    assume "q < 4"
    then consider "q = 0" | "q = 1" | "q = 2" | "q = 3" by linarith
    then show "take (length (js ''cat''))
               (drop q (content (sections
                  (demo_state (demo_issue (js ''cat'') (Some (js ''$5 dog''))) None) ! 0)))
             \<noteq> js ''cat''"
      by cases simp_all
  qed
  show ?thesis
    using confirm_fix_first_occurrence
      [of "demo_issue (js ''cat'') (Some (js ''$5 dog''))" "js ''cat''" "js ''$5 dog''" 0
          "demo_state (demo_issue (js ''cat'') (Some (js ''$5 dog''))) None" 4,
       OF _ _ _ _ _ _ _ _ low]
    by simp
qed

section \<open>The regular expressions\<close>

lemma greedy_star_set:
  "(m, r) \<in> set (greedy_star P s) \<longleftrightarrow> s = m @ r \<and> (\<forall>c\<in>set m. P c)"
proof (induction s arbitrary: m)
  case Nil
  then show ?case by auto
next
  case (Cons c cs)
  show ?case
  proof (cases m)
    case Nil
    then show ?thesis by auto
  next
    case (Cons a m')
    have "(a # m', r) \<in> set (greedy_star P (c # cs))
            \<longleftrightarrow> a = c \<and> P c \<and> (m', r) \<in> set (greedy_star P cs)"
      by (auto simp: image_iff intro!: bexI [of _ "(m', r)"])
    then show ?thesis using Cons by (auto simp: Cons.IH)
  qed
qed

lemma first_some_None: "first_some k xs = None \<longleftrightarrow> (\<forall>x\<in>set xs. k x = None)"
  by (induction xs) (auto split: option.splits)

lemma first_some_SomeD: "first_some k xs = Some y \<Longrightarrow> \<exists>x\<in>set xs. k x = Some y"
  by (induction xs) (auto split: option.splits)

lemma first_some_prod_SomeD:
  "first_some (\<lambda>(a, r). k a r) xs = Some y \<Longrightarrow> \<exists>a r. (a, r) \<in> set xs \<and> k a r = Some y"
  by (drule first_some_SomeD) auto

lemma first_some_prod_SomeI:
  "(a, r) \<in> set xs \<Longrightarrow> k a r \<noteq> None \<Longrightarrow> first_some (\<lambda>(a, r). k a r) xs \<noteq> None"
proof
  assume a: "(a, r) \<in> set xs" "k a r \<noteq> None" "first_some (\<lambda>(a, r). k a r) xs = None"
  from a(3) have "\<forall>x\<in>set xs. (case x of (a, r) \<Rightarrow> k a r) = None"
    by (simp only: first_some_None)
  with a(1) have "k a r = None" by fastforce
  with a(2) show False by simp
qed

lemma first_some_append:
  "first_some k (xs @ ys) = (case first_some k xs of Some y \<Rightarrow> Some y | None \<Rightarrow> first_some k ys)"
  by (induction xs) (auto split: option.splits)

lemma first_some_map: "first_some k (map f xs) = first_some (\<lambda>x. k (f x)) xs"
  by (induction xs) (auto split: option.splits)

lemma skip_ws_greedy:
  "first_some (\<lambda>(w, r). F r) (greedy_star isWhiteSpace s) = skip_ws F s"
  by (induction s) (auto simp: first_some_append first_some_map case_prod_unfold split: option.splits)

lemma skip_ws_at_end:
  "skip_ws (at_end x) s = (if list_all isWhiteSpace s then Some x else None)"
  by (induction s) (simp_all add: at_end_def)

lemma skip_ws_map_option: "skip_ws (\<lambda>r. map_option f (F r)) s = map_option f (skip_ws F s)"
  by (induction s) (auto split: option.splits)

lemma lazy_star_plus: "lazy_star P s = ([], s) # lazy_plus P s"
  by (cases s) (auto simp: lazy_plus_def filter_map comp_def case_prod_unfold)

lemma lazy_plus_Cons:
  "lazy_plus P (c # cs) = (if P c then ([c], cs) # map (\<lambda>(m, r). (c # m, r)) (lazy_plus P cs) else [])"
proof -
  have "lazy_plus P (c # cs) = (if P c then map (\<lambda>(m, r). (c # m, r)) (lazy_star P cs) else [])"
    by (simp add: lazy_plus_def filter_map comp_def case_prod_unfold)
  then show ?thesis by (simp add: lazy_star_plus [of P cs])
qed

lemma lazy_plus_Nil: "lazy_plus P [] = []"
  by (simp add: lazy_plus_def)

lemma shortest_dot_lazy:
  "first_some (\<lambda>(g2, r4). if list_all isWhiteSpace r4 then Some (f g2) else None)
     (lazy_plus isDot s) = map_option f (shortest_dot s)"
proof (induction s arbitrary: f)
  case Nil
  then show ?case by (simp add: lazy_plus_Nil)
next
  case (Cons c cs)
  have "first_some (\<lambda>x. case case x of (m, r) \<Rightarrow> (c # m, r) of
                          (g2, r4) \<Rightarrow> if list_all isWhiteSpace r4 then Some (f g2) else None)
          (lazy_plus isDot cs)
        = first_some (\<lambda>(g2, r4). if list_all isWhiteSpace r4 then Some ((f \<circ> (#) c) g2) else None)
          (lazy_plus isDot cs)"
    by (simp add: case_prod_unfold comp_def cong: if_cong)
  also have "\<dots> = map_option (f \<circ> (#) c) (shortest_dot cs)"
    by (rule Cons.IH)
  finally show ?case
    by (simp add: lazy_plus_Cons first_some_map option.map_comp)
qed

lemma hashHeaderMatch_stages:
  "hashHeaderMatch line =
     first_some (\<lambda>(w1, r1).
       first_some (\<lambda>(g1, r2). map_option (Pair g1) (skip_ws shortest_dot r2))
         (greedy_plus isHash r1))
       (greedy_star isWhiteSpace line)"
  unfolding hashHeaderMatch_def
  by (simp add: skip_ws_greedy skip_ws_at_end shortest_dot_lazy skip_ws_map_option)

lemma shortest_dot_SomeD:
  "shortest_dot s = Some t \<Longrightarrow>
     t \<noteq> [] \<and> list_all isDot t \<and> hd t = hd s \<and> (\<exists>w3. s = t @ w3 \<and> list_all isWhiteSpace w3)
     \<and> (length t = 1 \<or> \<not> isWhiteSpace (last t))"
proof (induction s arbitrary: t)
  case Nil
  then show ?case by simp
next
  case (Cons c cs)
  show ?case
  proof (cases "list_all isWhiteSpace cs")
    case True
    with Cons.prems show ?thesis by (auto split: if_splits)
  next
    case False
    with Cons.prems obtain t' where t': "isDot c" "shortest_dot cs = Some t'" "t = c # t'"
      by (auto split: if_splits)
    from Cons.IH [OF t'(2)] obtain w3 where IH: "t' \<noteq> []" "list_all isDot t'"
      "cs = t' @ w3" "list_all isWhiteSpace w3" "length t' = 1 \<or> \<not> isWhiteSpace (last t')"
      by auto
    have "\<not> isWhiteSpace (last t')"
    proof (cases "length t' = 1")
      case True
      then obtain d where "t' = [d]" by (cases t') auto
      with False IH(3,4) show ?thesis by auto
    next
      case False
      with IH(5) show ?thesis by simp
    qed
    with t' IH show ?thesis by auto
  qed
qed

lemma shortest_dot_SomeI:
  "t \<noteq> [] \<Longrightarrow> list_all isDot t \<Longrightarrow> list_all isWhiteSpace w3 \<Longrightarrow> shortest_dot (t @ w3) \<noteq> None"
proof (induction t)
  case Nil
  then show ?case by simp
next
  case (Cons c t)
  then show ?case by (cases t) auto
qed

lemma shortest_dot_exact:
  "t \<noteq> [] \<Longrightarrow> list_all isDot t \<Longrightarrow> \<not> isWhiteSpace (last t) \<Longrightarrow> shortest_dot t = Some t"
proof (induction t)
  case Nil
  then show ?case by simp
next
  case (Cons c t)
  show ?case
  proof (cases t)
    case Nil
    with Cons.prems show ?thesis by simp
  next
    case (Cons d t')
    then have "last t \<in> set t" by simp
    moreover from Cons Cons.prems(3) have "\<not> isWhiteSpace (last t)" by simp
    ultimately have "\<not> list_all isWhiteSpace t"
      by (auto simp: list_all_iff)
    moreover from Cons Cons.prems Cons.IH have "shortest_dot t = Some t" by simp
    ultimately show ?thesis using Cons.prems by simp
  qed
qed

lemma skip_ws_base: "F s \<noteq> None \<Longrightarrow> skip_ws F s \<noteq> None"
  by (cases s) (auto split: option.splits)

lemma skip_ws_SomeD:
  "skip_ws F s = Some y \<Longrightarrow> \<exists>w r. s = w @ r \<and> list_all isWhiteSpace w \<and> F r = Some y"
proof (induction s)
  case Nil
  then show ?case by simp
next
  case (Cons c cs)
  show ?case
  proof (cases "isWhiteSpace c \<and> skip_ws F cs = Some y")
    case True
    with Cons.IH obtain w r where "cs = w @ r" "list_all isWhiteSpace w" "F r = Some y"
      by auto
    with True have "c # cs = (c # w) @ r \<and> list_all isWhiteSpace (c # w) \<and> F r = Some y"
      by simp
    then show ?thesis by blast
  next
    case False
    with Cons.prems have "F (c # cs) = Some y"
      by (auto split: if_splits option.splits)
    then have "c # cs = [] @ (c # cs) \<and> list_all isWhiteSpace [] \<and> F (c # cs) = Some y"
      by simp
    then show ?thesis by blast
  qed
qed

lemma skip_ws_SomeI:
  "list_all isWhiteSpace w \<Longrightarrow> F r \<noteq> None \<Longrightarrow> skip_ws F (w @ r) \<noteq> None"
  by (induction w) (auto simp: skip_ws_base split: option.splits)

lemma skip_ws_title_ok: "skip_ws shortest_dot s = Some t \<Longrightarrow> title_ok t"
proof (induction s)
  case Nil
  then show ?case by simp
next
  case (Cons c cs)
  show ?case
  proof (cases "isWhiteSpace c")
    case ws: True
    show ?thesis
    proof (cases "skip_ws shortest_dot cs")
      case None
      with ws Cons.prems have sd: "shortest_dot (c # cs) = Some t" by simp
      have "shortest_dot cs = None"
      proof (rule ccontr)
        assume "shortest_dot cs \<noteq> None"
        then have "skip_ws shortest_dot cs \<noteq> None" by (rule skip_ws_base)
        with None show False by simp
      qed
      with sd have "t = [c]" "isDot c" by (auto split: if_splits)
      then show ?thesis by (simp add: title_ok_def)
    next
      case (Some y)
      with ws Cons.prems have "skip_ws shortest_dot cs = Some t" by simp
      then show ?thesis by (rule Cons.IH)
    qed
  next
    case False
    with Cons.prems have sd: "shortest_dot (c # cs) = Some t" by simp
    from shortest_dot_SomeD [OF sd] False show ?thesis
      by (auto simp: title_ok_def)
  qed
qed

lemma title_ok_skip_ws: "title_ok t \<Longrightarrow> skip_ws shortest_dot t = Some t"
proof (cases t)
  case Nil
  assume "title_ok t"
  with Nil show ?thesis by (simp add: title_ok_def)
next
  case (Cons c cs)
  assume ok: "title_ok t"
  show ?thesis
  proof (cases cs)
    case Nil
    with Cons ok show ?thesis by (simp add: title_ok_def)
  next
    case (Cons d cs')
    with \<open>t = c # cs\<close> ok have "\<not> isWhiteSpace c" "\<not> isWhiteSpace (last t)" "list_all isDot t"
      by (auto simp: title_ok_def)
    with \<open>t = c # cs\<close> shortest_dot_exact [of t] show ?thesis by simp
  qed
qed

lemma hashHeaderMatch_title_ok: "hashHeaderMatch line = Some (g1, g2) \<Longrightarrow> title_ok g2"
proof -
  assume "hashHeaderMatch line = Some (g1, g2)"
  then obtain r1 where
    "first_some (\<lambda>(g1, r2). map_option (Pair g1) (skip_ws shortest_dot r2))
       (greedy_plus isHash r1) = Some (g1, g2)"
    unfolding hashHeaderMatch_stages by (blast dest: first_some_prod_SomeD)
  then obtain h r2 where "map_option (Pair h) (skip_ws shortest_dot r2) = Some (g1, g2)"
    by (blast dest: first_some_prod_SomeD)
  then have "skip_ws shortest_dot r2 = Some g2" by auto
  then show ?thesis by (rule skip_ws_title_ok)
qed

lemma hashHeaderMatch_reparse:
  assumes "title_ok t"
  shows "hashHeaderMatch (35 # 32 # t) = Some ([35], t)"
proof -
  have "skip_ws shortest_dot (32 # t) = Some t"
    using title_ok_skip_ws [OF assms] by (simp add: isWhiteSpace_def)
  then show ?thesis
    by (simp add: hashHeaderMatch_stages greedy_plus_def isWhiteSpace_def isHash_def)
qed

lemma hashHeaderMatch_iff:
  "hashHeaderMatch line \<noteq> None \<longleftrightarrow>
     (\<exists>w1 h w2 t w3. line = w1 @ h @ w2 @ t @ w3
        \<and> list_all isWhiteSpace w1 \<and> h \<noteq> [] \<and> list_all isHash h
        \<and> list_all isWhiteSpace w2 \<and> t \<noteq> [] \<and> list_all isDot t
        \<and> list_all isWhiteSpace w3)"
proof
  assume "hashHeaderMatch line \<noteq> None"
  then obtain g1 g2 where "hashHeaderMatch line = Some (g1, g2)" by auto
  then obtain w1 r1 where 1: "(w1, r1) \<in> set (greedy_star isWhiteSpace line)" and
    "first_some (\<lambda>(g1, r2). map_option (Pair g1) (skip_ws shortest_dot r2))
       (greedy_plus isHash r1) = Some (g1, g2)"
    unfolding hashHeaderMatch_stages by (blast dest: first_some_prod_SomeD)
  then obtain h r2 where 2: "(h, r2) \<in> set (greedy_plus isHash r1)"
    and "map_option (Pair h) (skip_ws shortest_dot r2) = Some (g1, g2)"
    by (blast dest: first_some_prod_SomeD)
  then have "skip_ws shortest_dot r2 = Some g2" by auto
  then obtain w2 r3 where 3: "r2 = w2 @ r3" "list_all isWhiteSpace w2"
    "shortest_dot r3 = Some g2"
    by (blast dest: skip_ws_SomeD)
  from shortest_dot_SomeD [OF 3(3)] obtain w3 where 4: "g2 \<noteq> []" "list_all isDot g2"
    "r3 = g2 @ w3" "list_all isWhiteSpace w3" by auto
  from 1 2 3 4 have "line = w1 @ h @ w2 @ g2 @ w3
        \<and> list_all isWhiteSpace w1 \<and> h \<noteq> [] \<and> list_all isHash h
        \<and> list_all isWhiteSpace w2 \<and> g2 \<noteq> [] \<and> list_all isDot g2
        \<and> list_all isWhiteSpace w3"
    by (auto simp: greedy_star_set greedy_plus_def list_all_iff)
  then show "\<exists>w1 h w2 t w3. line = w1 @ h @ w2 @ t @ w3
        \<and> list_all isWhiteSpace w1 \<and> h \<noteq> [] \<and> list_all isHash h
        \<and> list_all isWhiteSpace w2 \<and> t \<noteq> [] \<and> list_all isDot t
        \<and> list_all isWhiteSpace w3" by blast
next
  assume "\<exists>w1 h w2 t w3. line = w1 @ h @ w2 @ t @ w3
        \<and> list_all isWhiteSpace w1 \<and> h \<noteq> [] \<and> list_all isHash h
        \<and> list_all isWhiteSpace w2 \<and> t \<noteq> [] \<and> list_all isDot t
        \<and> list_all isWhiteSpace w3"
  then obtain w1 h w2 t w3 where d: "line = w1 @ h @ w2 @ t @ w3"
        "list_all isWhiteSpace w1" "h \<noteq> []" "list_all isHash h"
        "list_all isWhiteSpace w2" "t \<noteq> []" "list_all isDot t"
        "list_all isWhiteSpace w3" by blast
  have "skip_ws shortest_dot (w2 @ (t @ w3)) \<noteq> None"
    using d(5-8) by (intro skip_ws_SomeI shortest_dot_SomeI)
  then have 3: "map_option (Pair h) (skip_ws shortest_dot (w2 @ t @ w3)) \<noteq> None" by simp
  have 2: "(h, w2 @ t @ w3) \<in> set (greedy_plus isHash (h @ w2 @ t @ w3))"
    using d(3,4) by (simp add: greedy_plus_def greedy_star_set list_all_iff)
  have "first_some (\<lambda>(g1, r2). map_option (Pair g1) (skip_ws shortest_dot r2))
       (greedy_plus isHash (h @ w2 @ t @ w3)) \<noteq> None"
    using 2 3 by (rule first_some_prod_SomeI)
  moreover have "(w1, h @ w2 @ t @ w3) \<in> set (greedy_star isWhiteSpace line)"
    using d(1,2) by (simp add: greedy_star_set list_all_iff)
  ultimately show "hashHeaderMatch line \<noteq> None"
    unfolding hashHeaderMatch_stages
    by (rule first_some_prod_SomeI [where k = "\<lambda>w1 r1. first_some (\<lambda>(g1, r2). map_option (Pair g1) (skip_ws shortest_dot r2)) (greedy_plus isHash r1)", rotated])
qed

lemma upperHeaderMatch_stages:
  "upperHeaderMatch line =
     first_some (\<lambda>(w1, r1).
       first_some (\<lambda>(g1, r2). if list_all isWhiteSpace r2 then Some g1 else None)
         (greedy_at_least 4 isUpperOrSpace r1))
       (greedy_star isWhiteSpace line)"
  unfolding upperHeaderMatch_def by (simp add: skip_ws_greedy skip_ws_at_end)

lemma upperHeaderMatch_SomeD:
  assumes "upperHeaderMatch line = Some g1"
  shows "4 \<le> length g1 \<and> list_all isUpperOrSpace g1
         \<and> (\<exists>w1 w3. line = w1 @ g1 @ w3 \<and> list_all isWhiteSpace w1 \<and> list_all isWhiteSpace w3)"
proof -
  from assms obtain w1 r1 where 1: "(w1, r1) \<in> set (greedy_star isWhiteSpace line)" and
    "first_some (\<lambda>(g1, r2). if list_all isWhiteSpace r2 then Some g1 else None)
         (greedy_at_least 4 isUpperOrSpace r1) = Some g1"
    unfolding upperHeaderMatch_stages by (blast dest: first_some_prod_SomeD)
  then obtain g r2 where 2: "(g, r2) \<in> set (greedy_at_least 4 isUpperOrSpace r1)"
    and "(if list_all isWhiteSpace r2 then Some g else None) = Some g1"
    by (blast dest: first_some_prod_SomeD)
  then have 3: "list_all isWhiteSpace r2" "g = g1" by (auto split: if_splits)
  from 1 2 3 have "line = w1 @ g1 @ r2 \<and> list_all isWhiteSpace w1 \<and> list_all isWhiteSpace r2"
    "4 \<le> length g1" "list_all isUpperOrSpace g1"
    by (auto simp: greedy_star_set greedy_at_least_def list_all_iff)
  then show ?thesis by blast
qed

lemma upperHeaderMatch_iff:
  "upperHeaderMatch line \<noteq> None \<longleftrightarrow> 4 \<le> length line \<and> list_all isUpperOrSpace line"
proof
  assume "upperHeaderMatch line \<noteq> None"
  then obtain g1 where "upperHeaderMatch line = Some g1" by auto
  from upperHeaderMatch_SomeD [OF this] show "4 \<le> length line \<and> list_all isUpperOrSpace line"
    by (auto simp: list_all_iff isUpperOrSpace_def)
next
  assume a: "4 \<le> length line \<and> list_all isUpperOrSpace line"
  then have 2: "(line, []) \<in> set (greedy_at_least 4 isUpperOrSpace line)"
    by (simp add: greedy_at_least_def greedy_star_set list_all_iff)
  have "first_some (\<lambda>(g1, r2). if list_all isWhiteSpace r2 then Some g1 else None)
         (greedy_at_least 4 isUpperOrSpace line) \<noteq> None"
    using 2 by (rule first_some_prod_SomeI) simp
  moreover have "([], line) \<in> set (greedy_star isWhiteSpace line)"
    by (simp add: greedy_star_set)
  ultimately show "upperHeaderMatch line \<noteq> None"
    unfolding upperHeaderMatch_stages
    by (rule first_some_prod_SomeI [where k = "\<lambda>w1 r1. first_some (\<lambda>(g1, r2). if list_all isWhiteSpace r2 then Some g1 else None) (greedy_at_least 4 isUpperOrSpace r1)", rotated])
qed

lemma header_text_nonempty: "headerMatch line = Some hm \<Longrightarrow> header_text hm \<noteq> []"
proof -
  assume hm: "headerMatch line = Some hm"
  show ?thesis
  proof (cases "hashHeaderMatch line")
    case None
    with hm obtain g1 where g1: "upperHeaderMatch line = Some g1" "hm = (g1, None)"
      by (auto simp: headerMatch_def)
    from upperHeaderMatch_SomeD [OF g1(1)] have "g1 \<noteq> []" by auto
    with g1 show ?thesis by simp
  next
    case (Some p)
    obtain g1 g2 where p: "p = (g1, g2)" by (cases p)
    with Some have "title_ok g2" by (auto dest: hashHeaderMatch_title_ok)
    with Some p hm show ?thesis by (auto simp: headerMatch_def title_ok_def)
  qed
qed

text \<open>
  Claim C5, as the code has it. A line is a heading line exactly when it has one of two
  shapes: (a) optional whitespace, one or more \<open>#\<close>, optional whitespace, a non-empty
  text without line terminators (this text may itself be a \<open>#\<close> or a single
  blank), and optional whitespace up to the end of the line; or (b) the whole line,
  untrimmed, has at least 4 characters, each an uppercase letter \<open>A\<close> to \<open>Z\<close> or a
  whitespace character. So \<open>##\<close> and a line of four blanks are heading lines. Every
  other line is a content line.
\<close>

theorem heading_line_iff:
  "headerMatch line \<noteq> None \<longleftrightarrow>
     (\<exists>w1 h w2 t w3. line = w1 @ h @ w2 @ t @ w3
        \<and> list_all isWhiteSpace w1 \<and> h \<noteq> [] \<and> list_all isHash h
        \<and> list_all isWhiteSpace w2 \<and> t \<noteq> [] \<and> list_all isDot t
        \<and> list_all isWhiteSpace w3)
     \<or> (4 \<le> length line \<and> list_all isUpperOrSpace line)"
proof -
  have "headerMatch line \<noteq> None
          \<longleftrightarrow> hashHeaderMatch line \<noteq> None \<or> upperHeaderMatch line \<noteq> None"
    by (auto simp: headerMatch_def split: option.splits)
  then show ?thesis
    by (simp only: hashHeaderMatch_iff upperHeaderMatch_iff)
qed

theorem heading_line_iff_witness:
  "headerMatch (js ''  ## Methods '') \<noteq> None \<and> headerMatch (js ''KEY RESULTS'') \<noteq> None"
proof -
  have "js ''  ## Methods '' = js ''  '' @ js ''##'' @ js '' '' @ js ''Methods'' @ js '' ''
        \<and> list_all isWhiteSpace (js ''  '') \<and> js ''##'' \<noteq> [] \<and> list_all isHash (js ''##'')
        \<and> list_all isWhiteSpace (js '' '') \<and> js ''Methods'' \<noteq> []
        \<and> list_all isDot (js ''Methods'') \<and> list_all isWhiteSpace (js '' '')"
    by (simp add: isWhiteSpace_def isHash_def isDot_def isLineTerminator_def)
  then have a: "\<exists>w1 h w2 t w3. js ''  ## Methods '' = w1 @ h @ w2 @ t @ w3
        \<and> list_all isWhiteSpace w1 \<and> h \<noteq> [] \<and> list_all isHash h
        \<and> list_all isWhiteSpace w2 \<and> t \<noteq> [] \<and> list_all isDot t
        \<and> list_all isWhiteSpace w3"
    by blast
  have b: "4 \<le> length (js ''KEY RESULTS'') \<and> list_all isUpperOrSpace (js ''KEY RESULTS'')"
    by (simp add: isUpperOrSpace_def isWhiteSpace_def)
  show ?thesis
    using a b heading_line_iff [of "js ''  ## Methods ''"] heading_line_iff [of "js ''KEY RESULTS''"]
    by blast
qed

section \<open>The loop of \<open>modularizeText\<close>\<close>

lemmas regex_eval = headerMatch_def hashHeaderMatch_stages upperHeaderMatch_stages
  greedy_plus_def greedy_at_least_def isWhiteSpace_def isHash_def isDot_def
  isLineTerminator_def isUpperOrSpace_def


lemma acc_push_section:
  "acc_sections (push_section now fb st) =
     acc_sections st @
       (if currentContent st \<noteq> [] \<or> currentHeader st \<noteq> [] then
          [\<lparr>sec_id = js ''sec-'' @ decimal (sectionCount st) @ js ''-''
                      @ decimal (now (sectionCount st)),
            title = (if currentHeader st \<noteq> [] then currentHeader st else fb),
            content = trim (join [10] (currentContent st))\<rparr>]
        else [])"
  by (simp add: push_section_def)

lemma push_section_keeps [simp]:
  "currentHeader (push_section now fb st) = currentHeader st"
  "currentContent (push_section now fb st) = currentContent st"
  by (simp_all add: push_section_def)

lemma line_step_heading:
  "headerMatch l = Some hm \<Longrightarrow>
     line_step now st l
       = (push_section now (js ''Front Matter'') st)\<lparr>currentHeader := header_text hm, currentContent := []\<rparr>"
  by (simp add: line_step_def)

lemma line_step_content:
  "headerMatch l = None \<Longrightarrow> line_step now st l = st\<lparr>currentContent := currentContent st @ [l]\<rparr>"
  by (simp add: line_step_def)

lemma map_filter_snoc:
  "List.map_filter f (xs @ [x]) = List.map_filter f xs @ (case f x of None \<Rightarrow> [] | Some y \<Rightarrow> [y])"
  by (simp add: List.map_filter_def split: option.splits)

lemma map_filter_empty: "List.map_filter f xs = [] \<longleftrightarrow> (\<forall>x\<in>set xs. f x = None)"
  by (induction xs) (auto simp: List.map_filter_def)

lemma map_filter_nonempty: "x \<in> set (List.map_filter headerMatch ps) \<Longrightarrow> header_text x \<noteq> []"
  by (auto simp: List.map_filter_def dest: header_text_nonempty)

lemma titles_inv_foldl: "titles_inv (foldl (line_step now) mod_init ps) ps"
proof (induction ps rule: rev_induct)
  case Nil
  then show ?case by (simp add: titles_inv_def mod_init_def List.map_filter_def)
next
  case (snoc l ps)
  let ?st = "foldl (line_step now) mod_init ps"
  let ?hs = "List.map_filter headerMatch ps"
  show ?case
  proof (cases "headerMatch l")
    case None
    have "ps \<noteq> []" if "?hs \<noteq> []" using that by (auto simp: List.map_filter_def)
    then show ?thesis
      using snoc None by (auto simp: titles_inv_def map_filter_snoc line_step_content)
  next
    case (Some hm)
    show ?thesis
    proof (cases "?hs = []")
      case True
      with snoc have st: "acc_sections ?st = []" "currentHeader ?st = []" "currentContent ?st = ps"
        by (simp_all add: titles_inv_def)
      have nh: "headerMatch (hd ps) = None" if "ps \<noteq> []"
        using True that by (simp add: map_filter_empty)
      show ?thesis
        using Some True st nh
        by (cases "ps = []") (simp_all add: titles_inv_def map_filter_snoc line_step_heading acc_push_section)
    next
      case False
      with snoc have st: "currentHeader ?st = header_text (last ?hs)"
        "map title (acc_sections ?st)
           = (if headerMatch (hd ps) = None then [js ''Front Matter''] else [])
             @ map header_text (butlast ?hs)"
        by (simp_all add: titles_inv_def)
      from False have "last ?hs \<in> set ?hs" by simp
      then have ne: "header_text (last ?hs) \<noteq> []" by (rule map_filter_nonempty)
      from False have ps: "ps \<noteq> []" by (auto simp: List.map_filter_def)
      have "map header_text (butlast ?hs) @ [header_text (last ?hs)] = map header_text ?hs"
        using False by (metis append_butlast_last_id list.simps(8,9) map_append)
      then show ?thesis
        using Some False st ne ps
        by (simp add: titles_inv_def map_filter_snoc line_step_heading acc_push_section)
    qed
  qed
qed

lemma split_lines_nonempty: "split_lines s \<noteq> []"
  by (induction s rule: split_lines.induct) (auto split: list.splits elim: cons_first.elims)

lemma final_titles:
  "map title (acc_sections (push_section now (js ''Introduction'')
                 (foldl (line_step now) mod_init (split_lines text))))
   = (if List.map_filter headerMatch (split_lines text) = [] then [js ''Introduction'']
      else (if headerMatch (hd (split_lines text)) = None then [js ''Front Matter''] else [])
           @ map header_text (List.map_filter headerMatch (split_lines text)))"
proof -
  let ?ps = "split_lines text"
  let ?st = "foldl (line_step now) mod_init ?ps"
  let ?hs = "List.map_filter headerMatch ?ps"
  have inv: "titles_inv ?st ?ps" by (rule titles_inv_foldl)
  show ?thesis
  proof (cases "?hs = []")
    case True
    with inv show ?thesis
      by (simp add: titles_inv_def acc_push_section split_lines_nonempty)
  next
    case False
    then have "last ?hs \<in> set ?hs" by simp
    then have ne: "header_text (last ?hs) \<noteq> []" by (rule map_filter_nonempty)
    have "map header_text (butlast ?hs) @ [header_text (last ?hs)] = map header_text ?hs"
      using False by (metis append_butlast_last_id list.simps(8,9) map_append)
    with inv False ne show ?thesis
      by (simp add: titles_inv_def acc_push_section)
  qed
qed

lemma final_acc_nonempty:
  "acc_sections (push_section now (js ''Introduction'')
                 (foldl (line_step now) mod_init (split_lines text))) \<noteq> []"
proof -
  have "map title (acc_sections (push_section now (js ''Introduction'')
                 (foldl (line_step now) mod_init (split_lines text)))) \<noteq> []"
    unfolding final_titles by (simp add: map_filter_empty)
  then show ?thesis by simp
qed

lemma modularizeText_acc:
  "modularizeText now text
     = acc_sections (push_section now (js ''Introduction'')
                 (foldl (line_step now) mod_init (split_lines text)))"
  using final_acc_nonempty [of now "text"] by (simp add: modularizeText_def Let_def)

text \<open>
  The claim C5 as stated fails: the line \<open>##\<close> consists of \<open>#\<close> characters only
  and is a heading line with the title \<open>#\<close>; the line \<open>#\<close> followed by a blank has
  no text after the \<open>#\<close> once trimmed and is a heading line with a blank as its title;
  a line of four blanks is empty once trimmed and is a heading line. The text \<open>##\<close>
  becomes a section with the title \<open>#\<close>.
\<close>

theorem heading_line_counterexample:
  "set (js ''##'') = {35}
   \<and> headerMatch (js ''##'') = Some (js ''#'', Some (js ''#''))
   \<and> trim (js '' '') = []
   \<and> headerMatch (js ''# '') = Some (js ''#'', Some (js '' ''))
   \<and> trim (js ''    '') = []
   \<and> headerMatch (js ''    '') = Some (js ''    '', None)
   \<and> map title (modularizeText id (js ''##'')) = [js ''#'']"
  by (simp add: regex_eval trim_def modularizeText_acc mod_init_def line_step_def
        acc_push_section)

text \<open>
  Claim C2. The fallback \<open>sections.length === 0 ? INITIAL_SECTIONS : sections\<close> is
  never taken: the split of the empty string is one empty line, which is pushed to
  \<open>currentContent\<close>, so the section \<open>Introduction\<close> with empty content is emitted; a
  text of four blanks is one heading line and gives one section with the blanks as title.
  Neither result is the default set of sections.
\<close>

theorem sectionize_blank_input:
  "modularizeText now []
     = [\<lparr>sec_id = js ''sec-0-'' @ decimal (now 0), title = js ''Introduction'', content = []\<rparr>]
   \<and> map title (modularizeText now (js ''    '')) = [js ''    '']
   \<and> map content (modularizeText now (js ''    '')) = [[]]
   \<and> modularizeText now [] \<noteq> INITIAL_SECTIONS
   \<and> modularizeText now (js ''    '') \<noteq> INITIAL_SECTIONS"
proof -
  have a: "modularizeText now []
     = [\<lparr>sec_id = js ''sec-0-'' @ decimal (now 0), title = js ''Introduction'', content = []\<rparr>]"
    by (simp add: regex_eval trim_def modularizeText_acc mod_init_def line_step_def
          acc_push_section decimal.simps [of 0])
  have b: "map title (modularizeText now (js ''    '')) = [js ''    '']"
    by (simp add: regex_eval trim_def modularizeText_acc mod_init_def line_step_def
          acc_push_section)
  have c: "map content (modularizeText now (js ''    '')) = [[]]"
    by (simp add: regex_eval trim_def modularizeText_acc mod_init_def line_step_def
          acc_push_section)
  have "length (modularizeText now []) = 1" by (simp only: a list.size)
  moreover have "length (map title (modularizeText now (js ''    ''))) = 1"
    by (simp only: b list.size)
  moreover have "length INITIAL_SECTIONS = 4" by (simp add: INITIAL_SECTIONS_def)
  ultimately have "modularizeText now [] \<noteq> INITIAL_SECTIONS"
    "modularizeText now (js ''    '') \<noteq> INITIAL_SECTIONS"
    by auto
  with a b c show ?thesis by blast
qed

text \<open>
  Claim C9. \<open>modularizeText\<close> returns at least one section for every text, and the
  titles of the sections are the captured texts of the heading lines in the order of
  the lines, after \<open>Front Matter\<close> when the first line is no heading line; a text
  without a heading line gives the one section \<open>Introduction\<close>.
\<close>

theorem sectionize_nonempty_in_heading_order:
  "modularizeText now text \<noteq> []
   \<and> map title (modularizeText now text)
     = (if List.map_filter headerMatch (split_lines text) = [] then [js ''Introduction'']
        else (if headerMatch (hd (split_lines text)) = None then [js ''Front Matter''] else [])
             @ map header_text (List.map_filter headerMatch (split_lines text)))"
  unfolding modularizeText_acc using final_acc_nonempty final_titles by simp

theorem sectionize_nonempty_in_heading_order_witness:
  "map title (modularizeText id
      (js ''intro'' @ [10] @ js ''# Abstract'' @ [10, 10] @ js ''Hello world.'' @ [13, 10]
       @ js ''## Methods'' @ [10] @ js ''We did X.''))
   = [js ''Front Matter'', js ''Abstract'', js ''Methods'']"
  using sectionize_nonempty_in_heading_order
    [of id "js ''intro'' @ [10] @ js ''# Abstract'' @ [10, 10] @ js ''Hello world.'' @ [13, 10]
       @ js ''## Methods'' @ [10] @ js ''We did X.''"]
  by (simp add: regex_eval List.map_filter_def)

section \<open>Lines, \<open>join\<close> and \<open>trim\<close>\<close>

lemma cons_first_nonempty: "xs \<noteq> [] \<Longrightarrow> cons_first c xs = (c # hd xs) # tl xs"
  by (cases xs) auto

lemma split_lines_LF: "split_lines (10 # s) = [] # split_lines s"
  by (cases s) auto

lemma split_lines_other:
  "c \<noteq> 10 \<Longrightarrow> \<not> (c = 13 \<and> s \<noteq> [] \<and> hd s = 10) \<Longrightarrow>
     split_lines (c # s) = (c # hd (split_lines s)) # tl (split_lines s)"
  by (cases s) (auto simp: cons_first_nonempty split_lines_nonempty)

lemma split_lines_CRLF: "split_lines (13 # 10 # s) = [] # split_lines s"
  by simp

lemma split_lines_no_LF: "l \<in> set (split_lines s) \<Longrightarrow> 10 \<notin> set l"
proof (induction s arbitrary: l rule: split_lines.induct)
  case 1
  then show ?case by simp
next
  case (2 c)
  then show ?case by (auto split: if_splits)
next
  case (3 c d cs)
  show ?case
  proof (cases "c = 10")
    case True
    with 3 show ?thesis by auto
  next
    case False
    show ?thesis
    proof (cases "c = 13 \<and> d = 10")
      case True
      with 3 show ?thesis by auto
    next
      case nc: False
      have "split_lines (c # d # cs)
              = (c # hd (split_lines (d # cs))) # tl (split_lines (d # cs))"
        using False nc by (intro split_lines_other) auto
      with "3.prems" have "l \<in> set ((c # hd (split_lines (d # cs))) # tl (split_lines (d # cs)))"
        by simp
      then consider "l = c # hd (split_lines (d # cs))" | "l \<in> set (tl (split_lines (d # cs)))"
        by auto
      then show ?thesis
      proof cases
        case 1
        have "hd (split_lines (d # cs)) \<in> set (split_lines (d # cs))"
          by (simp add: split_lines_nonempty del: split_lines.simps)
        with "3.IH"(3) [OF False nc] have "10 \<notin> set (hd (split_lines (d # cs)))" by blast
        with 1 False show ?thesis by auto
      next
        case 2
        then have "l \<in> set (split_lines (d # cs))" by (rule list.set_sel(2) [rotated]) (simp add: split_lines_nonempty del: split_lines.simps)
        with "3.IH"(3) [OF False nc] show ?thesis by blast
      qed
    qed
  qed
qed

lemma split_lines_single: "10 \<notin> set l \<Longrightarrow> split_lines l = [l]"
  by (induction l rule: split_lines.induct) auto

lemma split_lines_append:
  "\<not> (a \<noteq> [] \<and> last a = 13 \<and> b \<noteq> [] \<and> hd b = 10) \<Longrightarrow>
     split_lines (a @ b)
       = butlast (split_lines a) @ [last (split_lines a) @ hd (split_lines b)] @ tl (split_lines b)"
proof (induction a rule: split_lines.induct)
  case 1
  then show ?case by (simp add: split_lines_nonempty)
next
  case (2 c)
  show ?case
  proof (cases "c = 10")
    case True
    then show ?thesis by (simp add: split_lines_LF split_lines_nonempty)
  next
    case False
    with 2 have "split_lines (c # b) = (c # hd (split_lines b)) # tl (split_lines b)"
      by (intro split_lines_other) auto
    with False show ?thesis by simp
  qed
next
  case (3 c d cs)
  let ?L = "split_lines (d # cs)"
  have ne: "?L \<noteq> []" by (rule split_lines_nonempty)
  show ?case
  proof (cases "c = 10")
    case True
    with 3 have "split_lines ((d # cs) @ b)
       = butlast ?L @ [last ?L @ hd (split_lines b)] @ tl (split_lines b)"
      by simp
    with True ne show ?thesis
      by (simp add: split_lines_LF del: split_lines.simps)
  next
    case False
    show ?thesis
    proof (cases "c = 13 \<and> d = 10")
      case True
      with False 3 have "split_lines (cs @ b)
         = butlast (split_lines cs) @ [last (split_lines cs) @ hd (split_lines b)] @ tl (split_lines b)"
        by (cases "cs = []") auto
      with True show ?thesis
        by (simp add: split_lines_nonempty del: split_lines.simps(3)) (simp add: split_lines_nonempty)
    next
      case nc: False
      with False 3 have IH: "split_lines ((d # cs) @ b)
         = butlast ?L @ [last ?L @ hd (split_lines b)] @ tl (split_lines b)"
        by simp
      have l: "split_lines (c # d # cs) = (c # hd ?L) # tl ?L"
        using False nc by (intro split_lines_other) auto
      have r: "split_lines (c # (d # cs) @ b)
                 = (c # hd (split_lines ((d # cs) @ b))) # tl (split_lines ((d # cs) @ b))"
        using False nc by (intro split_lines_other) auto
      show ?thesis
      proof (cases "tl ?L = []")
        case True
        with ne have "?L = [hd ?L]" by (cases ?L) auto
        then have "butlast ?L = []" "last ?L = hd ?L"
          by (metis butlast.simps(2), metis last.simps)
        with IH l r True show ?thesis by (simp del: split_lines.simps)
      next
        case False
        with ne have "butlast ?L = hd ?L # butlast (tl ?L)" "last ?L = last (tl ?L)"
          by (cases ?L; auto)+
        with IH l r False show ?thesis by (simp del: split_lines.simps)
      qed
    qed
  qed
qed

lemma split_lines_sep:
  assumes "a = [] \<or> last a \<noteq> 13"
  shows "split_lines (a @ 10 # b) = split_lines a @ split_lines b"
proof -
  have "split_lines (a @ (10 # b))
       = butlast (split_lines a) @ [last (split_lines a) @ hd (split_lines (10 # b))]
         @ tl (split_lines (10 # b))"
    using assms by (intro split_lines_append) auto
  then show ?thesis
    by (simp add: split_lines_LF split_lines_nonempty del: split_lines.simps)
qed

lemma split_lines_subset: "l \<in> set (split_lines s) \<Longrightarrow> set l \<subseteq> set s"
proof (induction s arbitrary: l rule: split_lines.induct)
  case 1
  then show ?case by simp
next
  case (2 c)
  then show ?case by (auto split: if_splits)
next
  case (3 c d cs)
  show ?case
  proof (cases "c = 10")
    case True
    with 3 show ?thesis by auto
  next
    case False
    show ?thesis
    proof (cases "c = 13 \<and> d = 10")
      case True
      with "3.prems" "3.IH"(2) [OF False True] show ?thesis by auto
    next
      case nc: False
      let ?L = "split_lines (d # cs)"
      have "split_lines (c # d # cs) = (c # hd ?L) # tl ?L"
        using False nc by (intro split_lines_other) auto
      with "3.prems" consider "l = c # hd ?L" | "l \<in> set (tl ?L)"
        by auto
      then show ?thesis
      proof cases
        case 1
        have "hd ?L \<in> set ?L"
          by (simp add: split_lines_nonempty del: split_lines.simps)
        with "3.IH"(3) [OF False nc] have "set (hd ?L) \<subseteq> set (d # cs)" by blast
        with 1 show ?thesis by auto
      next
        case 2
        then have "l \<in> set ?L"
          by (rule list.set_sel(2) [rotated]) (simp add: split_lines_nonempty del: split_lines.simps)
        with "3.IH"(3) [OF False nc] show ?thesis by auto
      qed
    qed
  qed
qed

lemma join_Cons: "xs \<noteq> [] \<Longrightarrow> join sep (x # xs) = x @ sep @ join sep xs"
  by (cases xs) auto

lemma join_cons_first: "xs \<noteq> [] \<Longrightarrow> join sep (cons_first c xs) = c # join sep xs"
  by (cases xs; cases "tl xs") (auto simp: join_Cons)

lemma join_snoc_empty: "xs \<noteq> [] \<Longrightarrow> join sep (xs @ [[]]) = join sep xs @ sep"
  by (induction sep xs rule: join.induct) auto

lemma join_split_lines: "no_crlf s \<Longrightarrow> join [10] (split_lines s) = s"
proof (induction s rule: split_lines.induct)
  case 1
  then show ?case by simp
next
  case (2 c)
  then show ?case by simp
next
  case (3 c d cs)
  have ne: "split_lines (d # cs) \<noteq> []" by (rule split_lines_nonempty)
  from 3 ne show ?case
    by (auto simp: join_Cons join_cons_first simp del: split_lines.simps
             simp add: split_lines.simps(3) [of c d cs])
qed

lemma no_crlf_appendD: "no_crlf (a @ b) \<Longrightarrow> no_crlf a \<and> no_crlf b"
proof (induction a rule: no_crlf.induct)
  case 1
  then show ?case by simp
next
  case (2 c)
  then show ?case by (cases b) auto
next
  case (3 c d s)
  then show ?case by auto
qed

lemma no_crlf_appendI:
  "no_crlf a \<Longrightarrow> no_crlf b \<Longrightarrow> \<not> (a \<noteq> [] \<and> last a = 13 \<and> b \<noteq> [] \<and> hd b = 10) \<Longrightarrow>
     no_crlf (a @ b)"
proof (induction a rule: no_crlf.induct)
  case 1
  then show ?case by simp
next
  case (2 c)
  then show ?case by (cases b) auto
next
  case (3 c d s)
  then show ?case by auto
qed

lemma no_crlf_line: "10 \<notin> set l \<Longrightarrow> no_crlf l"
  by (induction l rule: no_crlf.induct) auto

lemma no_crlf_join:
  "\<forall>l\<in>set ls. 10 \<notin> set l \<and> (l = [] \<or> last l \<noteq> 13) \<Longrightarrow> no_crlf (join [10] ls)"
proof (induction "[10::nat]" ls rule: join.induct)
  case 1
  then show ?case by simp
next
  case (2 x)
  then show ?case by (simp add: no_crlf_line)
next
  case (3 x y ys)
  then have "no_crlf x" "no_crlf (10 # join [10] (y # ys))" "x = [] \<or> last x \<noteq> 13"
    by (auto simp: no_crlf_line intro: no_crlf_appendI [of "[10]", simplified])
  then have "no_crlf (x @ 10 # join [10] (y # ys))"
    by (intro no_crlf_appendI) auto
  then show ?case by simp
qed

lemma split_lines_join:
  "ls \<noteq> [] \<Longrightarrow> \<forall>l\<in>set ls. 10 \<notin> set l \<and> (l = [] \<or> last l \<noteq> 13) \<Longrightarrow>
     split_lines (join [10] ls) = ls"
proof (induction "[10::nat]" ls rule: join.induct)
  case 1
  then show ?case by simp
next
  case (2 x)
  then show ?case by (simp add: split_lines_single)
next
  case (3 x y ys)
  then have "split_lines (x @ 10 # join [10] (y # ys)) = split_lines x @ split_lines (join [10] (y # ys))"
    by (intro split_lines_sep) auto
  with 3 show ?case by (simp add: split_lines_single)
qed

lemma trim_unique:
  assumes "s = u @ m @ v" and "list_all isWhiteSpace u" and "list_all isWhiteSpace v"
    and "m = [] \<or> (\<not> isWhiteSpace (hd m) \<and> \<not> isWhiteSpace (last m))"
  shows "trim s = m"
proof (cases "m = []")
  case True
  have d: "dropWhile isWhiteSpace (u @ v) = []"
    using assms(2,3) by (simp add: list_all_iff)
  have "trim s = rev (dropWhile isWhiteSpace (rev (dropWhile isWhiteSpace (u @ v))))"
    using True assms(1) by (simp only: trim_def append_Nil)
  also have "\<dots> = []" by (simp only: d rev.simps dropWhile.simps)
  finally show ?thesis using True by simp
next
  case False
  with assms(4) have h: "\<not> isWhiteSpace (hd m)" and l: "\<not> isWhiteSpace (last m)" by auto
  from False obtain x xs where m: "m = x # xs" by (cases m) auto
  have 1: "dropWhile isWhiteSpace (u @ m @ v) = dropWhile isWhiteSpace (m @ v)"
    using assms(2) by (intro dropWhile_append2) (simp add: list_all_iff)
  have 2: "dropWhile isWhiteSpace (m @ v) = m @ v"
    using h m by simp
  have 3: "dropWhile isWhiteSpace (rev v @ rev m) = dropWhile isWhiteSpace (rev m)"
    using assms(3) by (intro dropWhile_append2) (simp add: list_all_iff)
  from False obtain y ys where rm: "rev m = y # ys" by (cases "rev m") auto
  then have "y = last m" using False by (metis hd_rev list.sel(1))
  with l have "dropWhile isWhiteSpace (y # ys) = y # ys" by simp
  then have 4: "dropWhile isWhiteSpace (rev m) = rev m" by (simp only: rm)
  have "trim s = rev (dropWhile isWhiteSpace (rev (m @ v)))"
    by (simp only: trim_def assms(1) 1 2)
  also have "\<dots> = rev (dropWhile isWhiteSpace (rev v @ rev m))" by (simp only: rev_append)
  also have "\<dots> = m" by (simp only: 3 4 rev_rev_ident)
  finally show ?thesis .
qed

lemma trim_decomp:
  "\<exists>u v. s = u @ trim s @ v \<and> list_all isWhiteSpace u \<and> list_all isWhiteSpace v"
proof -
  define u where "u = takeWhile isWhiteSpace s"
  define d where "d = dropWhile isWhiteSpace s"
  define v where "v = rev (takeWhile isWhiteSpace (rev d))"
  have sd: "s = u @ d" by (simp add: u_def d_def)
  have "rev d = takeWhile isWhiteSpace (rev d) @ dropWhile isWhiteSpace (rev d)"
    by (simp only: takeWhile_dropWhile_id)
  then have "rev (rev d) = rev (takeWhile isWhiteSpace (rev d) @ dropWhile isWhiteSpace (rev d))"
    by (rule arg_cong)
  then have dv: "d = trim s @ v"
    by (simp only: rev_rev_ident rev_append trim_def v_def d_def)
  have "list_all isWhiteSpace u"
    by (auto simp: u_def list_all_iff dest: set_takeWhileD)
  moreover have "list_all isWhiteSpace v"
    by (auto simp: v_def list_all_iff dest: set_takeWhileD)
  moreover from sd dv have "s = u @ trim s @ v" by simp
  ultimately show ?thesis by blast
qed

lemma trim_shape:
  "trim s = [] \<or> (\<not> isWhiteSpace (hd (trim s)) \<and> \<not> isWhiteSpace (last (trim s)))"
proof (cases "trim s = []")
  case True
  then show ?thesis by simp
next
  case False
  define d where "d = dropWhile isWhiteSpace s"
  define e where "e = dropWhile isWhiteSpace (rev d)"
  have t: "trim s = rev e" by (simp add: trim_def d_def e_def)
  with False have e: "e \<noteq> []" by simp
  then have "\<not> isWhiteSpace (hd e)" unfolding e_def by (rule hd_dropWhile)
  with e have l: "\<not> isWhiteSpace (last (trim s))" by (simp add: t last_rev)
  have "rev d = takeWhile isWhiteSpace (rev d) @ e"
    by (simp only: e_def takeWhile_dropWhile_id)
  then have "rev (rev d) = rev (takeWhile isWhiteSpace (rev d) @ e)" by (rule arg_cong)
  then have dv: "d = trim s @ rev (takeWhile isWhiteSpace (rev d))"
    by (simp only: rev_rev_ident rev_append t)
  with False have dne: "d \<noteq> []" by auto
  then have "\<not> isWhiteSpace (hd d)" unfolding d_def by (rule hd_dropWhile)
  moreover from dv False have "hd d = hd (trim s)"
    by (metis hd_append2)
  ultimately show ?thesis using l by simp
qed

lemma trim_fixed:
  "s = [] \<or> (\<not> isWhiteSpace (hd s) \<and> \<not> isWhiteSpace (last s)) \<Longrightarrow> trim s = s"
  by (rule trim_unique [of s "[]" s "[]"]) simp_all

lemma trim_idem: "trim (trim s) = trim s"
  using trim_shape [of s] by (rule trim_fixed)

lemma trim_ws_ext:
  assumes "list_all isWhiteSpace u" and "list_all isWhiteSpace v"
  shows "trim (u @ s @ v) = trim s"
proof -
  obtain u' v' where s: "s = u' @ trim s @ v'" and u': "list_all isWhiteSpace u'"
    and v': "list_all isWhiteSpace v'"
    using trim_decomp by blast
  have "u @ s @ v = u @ (u' @ trim s @ v') @ v" using s by simp
  then have "u @ s @ v = (u @ u') @ trim s @ (v' @ v)" by simp
  moreover have "list_all isWhiteSpace (u @ u')" using assms(1) u' by simp
  moreover have "list_all isWhiteSpace (v' @ v)" using assms(2) v' by simp
  ultimately show ?thesis using trim_shape [of s] by (rule trim_unique)
qed

lemma in_split_hd: "hd (split_lines s) \<in> set (split_lines s)"
  by (simp add: split_lines_nonempty del: split_lines.simps)

lemma in_split_last: "last (split_lines s) \<in> set (split_lines s)"
  by (simp add: split_lines_nonempty del: split_lines.simps)

lemma ws_lines: "list_all isWhiteSpace s \<Longrightarrow> l \<in> set (split_lines s) \<Longrightarrow> list_all isWhiteSpace l"
  using split_lines_subset [of l s] by (auto simp: list_all_iff)

lemma lines_append_right:
  assumes "l' \<in> set (split_lines m)" and "m = [] \<or> last m \<noteq> 13" and "list_all isWhiteSpace v"
  shows "\<exists>b. list_all isWhiteSpace b \<and> l' @ b \<in> set (split_lines (m @ v))"
proof -
  let ?Lm = "split_lines m"
  let ?Lv = "split_lines v"
  have mv: "split_lines (m @ v) = butlast ?Lm @ [last ?Lm @ hd ?Lv] @ tl ?Lv"
    using assms(2) by (intro split_lines_append) auto
  have Lm: "butlast ?Lm @ [last ?Lm] = ?Lm"
    by (simp add: split_lines_nonempty del: split_lines.simps)
  with assms(1) have "l' \<in> set (butlast ?Lm) \<or> l' = last ?Lm"
    by (metis Un_iff empty_iff empty_set set_ConsD set_append)
  then show ?thesis
  proof
    assume "l' \<in> set (butlast ?Lm)"
    with mv have "l' @ [] \<in> set (split_lines (m @ v))" by simp
    moreover have "list_all isWhiteSpace []" by simp
    ultimately show ?thesis by blast
  next
    assume "l' = last ?Lm"
    with mv have "l' @ hd ?Lv \<in> set (split_lines (m @ v))" by simp
    moreover have "list_all isWhiteSpace (hd ?Lv)"
      using assms(3) in_split_hd by (rule ws_lines)
    ultimately show ?thesis by blast
  qed
qed

lemma lines_append_left:
  assumes "l' \<in> set (split_lines m)" and "m = [] \<or> hd m \<noteq> 10" and "list_all isWhiteSpace u"
  shows "\<exists>a. list_all isWhiteSpace a \<and> a @ l' \<in> set (split_lines (u @ m))"
proof -
  let ?Lm = "split_lines m"
  let ?Lu = "split_lines u"
  have um: "split_lines (u @ m) = butlast ?Lu @ [last ?Lu @ hd ?Lm] @ tl ?Lm"
    using assms(2) by (intro split_lines_append) auto
  have Lm: "hd ?Lm # tl ?Lm = ?Lm"
    by (simp add: split_lines_nonempty del: split_lines.simps)
  with assms(1) have "l' = hd ?Lm \<or> l' \<in> set (tl ?Lm)"
    by (metis set_ConsD)
  then show ?thesis
  proof
    assume "l' = hd ?Lm"
    with um have "last ?Lu @ l' \<in> set (split_lines (u @ m))" by simp
    moreover have "list_all isWhiteSpace (last ?Lu)"
      using assms(3) in_split_last by (rule ws_lines)
    ultimately show ?thesis by blast
  next
    assume "l' \<in> set (tl ?Lm)"
    with um have "[] @ l' \<in> set (split_lines (u @ m))" by simp
    moreover have "list_all isWhiteSpace []" by simp
    ultimately show ?thesis by blast
  qed
qed

lemma trim_lines:
  assumes "l' \<in> set (split_lines (trim s))"
  shows "\<exists>l\<in>set (split_lines s). \<exists>a b. l = a @ l' @ b
           \<and> list_all isWhiteSpace a \<and> list_all isWhiteSpace b"
proof -
  obtain u v where s: "s = u @ trim s @ v" and u: "list_all isWhiteSpace u"
    and v: "list_all isWhiteSpace v"
    using trim_decomp by blast
  have cr: "isWhiteSpace 13" "isWhiteSpace 10" by (simp_all add: isWhiteSpace_def)
  have m1: "trim s = [] \<or> last (trim s) \<noteq> 13"
    using trim_shape [of s] cr by auto
  from lines_append_right [OF assms m1 v] obtain b where b: "list_all isWhiteSpace b"
    "l' @ b \<in> set (split_lines (trim s @ v))" by blast
  show ?thesis
  proof (cases "trim s = []")
    case True
    have "split_lines (trim s) = [[]]" by (simp only: True split_lines.simps(1))
    with assms have l': "l' = []" by simp
    have "s = u @ [] @ v" using s unfolding True .
    then have ws: "list_all isWhiteSpace s" using u v by simp
    let ?l = "hd (split_lines s)"
    have "list_all isWhiteSpace ?l" using ws in_split_hd by (rule ws_lines)
    then have "?l = ?l @ l' @ [] \<and> list_all isWhiteSpace ?l \<and> list_all isWhiteSpace []"
      using l' by simp
    then have "\<exists>a b. ?l = a @ l' @ b \<and> list_all isWhiteSpace a \<and> list_all isWhiteSpace b"
      by (intro exI [of _ ?l] exI [of _ "[]"])
    then show ?thesis using in_split_hd [of s] by (rule bexI)
  next
    case False
    have nws: "\<not> isWhiteSpace (hd (trim s))" using trim_shape [of s] False by blast
    have "hd (trim s) \<noteq> 10"
    proof
      assume "hd (trim s) = 10"
      then have "isWhiteSpace (hd (trim s))" by (simp only: cr(2))
      with nws show False by blast
    qed
    moreover have "hd (trim s @ v) = hd (trim s)" using False by (rule hd_append2)
    ultimately have "hd (trim s @ v) \<noteq> 10" by simp
    then have m2: "trim s @ v = [] \<or> hd (trim s @ v) \<noteq> 10" by simp
    from lines_append_left [OF b(2) m2 u] obtain a where a: "list_all isWhiteSpace a"
      "a @ l' @ b \<in> set (split_lines (u @ trim s @ v))" by auto
    then have in_s: "a @ l' @ b \<in> set (split_lines s)" by (simp only: s [symmetric])
    have "a @ l' @ b = a @ l' @ b \<and> list_all isWhiteSpace a \<and> list_all isWhiteSpace b"
      using a(1) b(1) by simp
    then have "\<exists>a' b'. a @ l' @ b = a' @ l' @ b' \<and> list_all isWhiteSpace a'
                 \<and> list_all isWhiteSpace b'"
      by (intro exI [of _ a] exI [of _ b])
    then show ?thesis using in_s by (rule bexI)
  qed
qed

section \<open>The round trip through the full-document view\<close>

lemma headerMatch_None_iff:
  "headerMatch l = None \<longleftrightarrow> hashHeaderMatch l = None \<and> upperHeaderMatch l = None"
  by (auto simp: headerMatch_def split: option.splits)

lemma ws_upper: "list_all isWhiteSpace a \<Longrightarrow> list_all isUpperOrSpace a"
  by (simp add: list_all_iff isUpperOrSpace_def)

lemma heading_ws_ext:
  assumes "headerMatch l' \<noteq> None" and "list_all isWhiteSpace a" and "list_all isWhiteSpace b"
  shows "headerMatch (a @ l' @ b) \<noteq> None"
proof -
  from assms(1) have "hashHeaderMatch l' \<noteq> None \<or> upperHeaderMatch l' \<noteq> None"
    by (simp add: headerMatch_None_iff)
  then show ?thesis
  proof (elim disjE)
    assume "hashHeaderMatch l' \<noteq> None"
    then obtain w1 h w2 t w3 where d: "l' = w1 @ h @ w2 @ t @ w3"
        "list_all isWhiteSpace w1" "h \<noteq> []" "list_all isHash h"
        "list_all isWhiteSpace w2" "t \<noteq> []" "list_all isDot t"
        "list_all isWhiteSpace w3"
      unfolding hashHeaderMatch_iff by blast
    have "a @ l' @ b = (a @ w1) @ h @ w2 @ t @ (w3 @ b)
        \<and> list_all isWhiteSpace (a @ w1) \<and> h \<noteq> [] \<and> list_all isHash h
        \<and> list_all isWhiteSpace w2 \<and> t \<noteq> [] \<and> list_all isDot t
        \<and> list_all isWhiteSpace (w3 @ b)"
      using d assms(2,3) by simp
    then have "\<exists>w1 h w2 t w3. a @ l' @ b = w1 @ h @ w2 @ t @ w3
        \<and> list_all isWhiteSpace w1 \<and> h \<noteq> [] \<and> list_all isHash h
        \<and> list_all isWhiteSpace w2 \<and> t \<noteq> [] \<and> list_all isDot t
        \<and> list_all isWhiteSpace w3"
      by (intro exI [of _ "a @ w1"] exI [of _ h] exI [of _ w2] exI [of _ t] exI [of _ "w3 @ b"])
    then have "hashHeaderMatch (a @ l' @ b) \<noteq> None"
      by (simp only: hashHeaderMatch_iff)
    then show ?thesis by (simp add: headerMatch_None_iff)
  next
    assume "upperHeaderMatch l' \<noteq> None"
    then have "4 \<le> length l' \<and> list_all isUpperOrSpace l'"
      by (simp only: upperHeaderMatch_iff)
    with assms(2,3) have "4 \<le> length (a @ l' @ b) \<and> list_all isUpperOrSpace (a @ l' @ b)"
      by (simp add: ws_upper)
    then have "upperHeaderMatch (a @ l' @ b) \<noteq> None"
      by (simp only: upperHeaderMatch_iff)
    then show ?thesis by (simp add: headerMatch_None_iff)
  qed
qed

lemma headerMatch_empty: "headerMatch [] = None"
  by (simp add: regex_eval)

lemma good_content_trim_join:
  assumes "\<forall>l\<in>set ls. plain_line l \<and> headerMatch l = None"
  shows "good_content (trim (join [10] ls))"
proof -
  let ?X = "join [10] ls"
  obtain u v where X: "?X = u @ trim ?X @ v"
    using trim_decomp by blast
  have "no_crlf ?X"
    using assms by (intro no_crlf_join) (simp add: plain_line_def)
  then have "no_crlf (u @ trim ?X @ v)" by (simp only: X [symmetric])
  then have ncr: "no_crlf (trim ?X)"
    using no_crlf_appendD by blast
  have lines: "headerMatch l' = None" if l': "l' \<in> set (split_lines (trim ?X))" for l'
  proof (rule ccontr)
    assume h: "headerMatch l' \<noteq> None"
    from trim_lines [OF l'] obtain l a b where l: "l \<in> set (split_lines ?X)"
      "l = a @ l' @ b" "list_all isWhiteSpace a" "list_all isWhiteSpace b"
      by blast
    from h l(3,4) have hl: "headerMatch l \<noteq> None"
      unfolding l(2) by (rule heading_ws_ext)
    show False
    proof (cases "ls = []")
      case True
      with l(1) have "l = []" by simp
      with hl show False by (simp add: headerMatch_empty)
    next
      case False
      then have "split_lines ?X = ls"
        using assms by (intro split_lines_join) (simp_all add: plain_line_def)
      with l(1) assms hl show False by auto
    qed
  qed
  show ?thesis
    unfolding good_content_def using trim_idem ncr lines by blast
qed

lemma title_ok_defaults: "title_ok (js ''Front Matter'')" "title_ok (js ''Introduction'')"
  by (simp_all add: title_ok_def isDot_def isLineTerminator_def isWhiteSpace_def)

lemma fp_inv_push:
  assumes "fp_inv st" and "title_ok fb"
  shows "fp_inv (push_section now fb st)"
proof -
  have "good_content (trim (join [10] (currentContent st)))"
    using assms(1) by (intro good_content_trim_join) (simp add: fp_inv_def)
  then show ?thesis
    using assms by (auto simp: fp_inv_def acc_push_section good_section_def)
qed

lemma fp_inv_step:
  assumes "fp_inv st" and "plain_line l" and "upperHeaderMatch l = None"
  shows "fp_inv (line_step now st l)"
proof (cases "headerMatch l")
  case None
  with assms show ?thesis by (simp add: line_step_content fp_inv_def)
next
  case (Some hm)
  with assms(3) obtain g1 g2 where g: "hashHeaderMatch l = Some (g1, g2)" "hm = (g1, Some g2)"
    by (auto simp: headerMatch_def split: option.splits)
  from g(1) have ok: "title_ok g2" by (rule hashHeaderMatch_title_ok)
  then have "header_text hm = g2" using g(2) by (simp add: title_ok_def)
  moreover have "fp_inv (push_section now (js ''Front Matter'') st)"
    using assms(1) title_ok_defaults(1) by (rule fp_inv_push)
  ultimately show ?thesis
    using Some ok by (simp add: line_step_heading fp_inv_def)
qed

lemma fp_inv_foldl:
  "fp_inv st \<Longrightarrow> \<forall>l\<in>set ls. plain_line l \<and> upperHeaderMatch l = None \<Longrightarrow>
     fp_inv (foldl (line_step now) st ls)"
  by (induction ls arbitrary: st) (simp_all add: fp_inv_step)

lemma first_pass_good:
  assumes "\<forall>l\<in>set (split_lines text). upperHeaderMatch l = None"
    and "\<forall>l\<in>set (split_lines text). l = [] \<or> last l \<noteq> 13"
  shows "\<forall>s\<in>set (modularizeText now text). good_section s"
proof -
  have "fp_inv mod_init" by (simp add: fp_inv_def mod_init_def)
  moreover have "\<forall>l\<in>set (split_lines text). plain_line l \<and> upperHeaderMatch l = None"
    using assms by (auto simp: plain_line_def dest: split_lines_no_LF)
  ultimately have "fp_inv (foldl (line_step now) mod_init (split_lines text))"
    by (rule fp_inv_foldl)
  then have "fp_inv (push_section now (js ''Introduction'')
               (foldl (line_step now) mod_init (split_lines text)))"
    using title_ok_defaults(2) by (rule fp_inv_push)
  then show ?thesis
    unfolding modularizeText_acc by (simp add: fp_inv_def)
qed

lemma headerMatch_title:
  "title_ok t \<Longrightarrow> headerMatch (35 # 32 # t) = Some ([35], Some t)"
  by (simp add: headerMatch_def hashHeaderMatch_reparse)

lemma title_ok_plain: "title_ok t \<Longrightarrow> 10 \<notin> set t \<and> last t \<noteq> 13"
proof -
  assume ok: "title_ok t"
  then have d: "\<forall>c\<in>set t. isDot c" and ne: "t \<noteq> []"
    by (simp_all add: title_ok_def list_all_iff)
  from ne have "last t \<in> set t" by simp
  with d have "isDot (last t)" by blast
  moreover have "10 \<in> set t \<Longrightarrow> isDot 10" using d by blast
  ultimately show ?thesis by (auto simp: isDot_def isLineTerminator_def)
qed

lemma good_content_last: "good_content c \<Longrightarrow> c = [] \<or> last c \<noteq> 13"
proof -
  assume "good_content c"
  then have "trim c = c" by (simp add: good_content_def)
  with trim_shape [of c] have "c = [] \<or> \<not> isWhiteSpace (last c)" by auto
  then show ?thesis by (auto simp: isWhiteSpace_def)
qed

lemma split_block:
  assumes "title_ok t"
  shows "split_lines (35 # 32 # t @ 10 # 10 # c) = (35 # 32 # t) # [] # split_lines c"
proof -
  from title_ok_plain [OF assms] have p: "10 \<notin> set (35 # 32 # t)" "last (35 # 32 # t) \<noteq> 13"
    using assms by (auto simp: title_ok_def)
  have "split_lines ((35 # 32 # t) @ 10 # (10 # c))
          = split_lines (35 # 32 # t) @ split_lines (10 # c)"
    using p(2) by (intro split_lines_sep) blast
  also have "\<dots> = [35 # 32 # t] @ [] # split_lines c"
    using split_lines_single [OF p(1)] by (simp only: split_lines_LF)
  finally show ?thesis by (simp del: split_lines.simps)
qed

lemma fullText_single: "fullText [s] = 35 # 32 # title s @ 10 # 10 # content s"
  by (simp add: fullText_def)

lemma fullText_Cons:
  "fullText (s # s' # ss)
     = (35 # 32 # title s @ 10 # 10 # content s) @ 10 # 10 # fullText (s' # ss)"
  by (simp add: fullText_def)

lemma split_fullText_single:
  "good_section s \<Longrightarrow>
     split_lines (fullText [s]) = (35 # 32 # title s) # [] # split_lines (content s)"
  by (simp only: fullText_single good_section_def split_block)

lemma split_fullText_Cons:
  assumes "good_section s"
  shows "split_lines (fullText (s # s' # ss))
           = ((35 # 32 # title s) # [] # split_lines (content s))
             @ [] # split_lines (fullText (s' # ss))"
proof -
  let ?b = "35 # 32 # title s @ 10 # 10 # content s"
  from assms have c: "content s = [] \<or> last (content s) \<noteq> 13"
    by (simp add: good_section_def good_content_last)
  have "last ?b \<noteq> 13"
  proof (cases "content s = []")
    case True
    then show ?thesis by simp
  next
    case False
    with c show ?thesis by simp
  qed
  then have "split_lines (?b @ 10 # (10 # fullText (s' # ss)))
               = split_lines ?b @ split_lines (10 # fullText (s' # ss))"
    by (intro split_lines_sep) blast
  also have "\<dots> = ((35 # 32 # title s) # [] # split_lines (content s))
             @ [] # split_lines (fullText (s' # ss))"
    using assms by (simp only: split_lines_LF split_block good_section_def)
  finally show ?thesis by (simp only: fullText_Cons)
qed

lemma foldl_content_lines:
  "\<forall>l\<in>set ls. headerMatch l = None \<Longrightarrow>
     foldl (line_step now) st ls = st\<lparr>currentContent := currentContent st @ ls\<rparr>"
  by (induction ls arbitrary: st) (simp_all add: line_step_content)

lemma foldl_block:
  assumes "good_section s"
  shows "foldl (line_step now) st ((35 # 32 # title s) # [] # split_lines (content s))
           = (push_section now (js ''Front Matter'') st)
               \<lparr>currentHeader := title s, currentContent := [] # split_lines (content s)\<rparr>"
proof -
  from assms have ok: "title_ok (title s)"
    and lines: "\<forall>l\<in>set (split_lines (content s)). headerMatch l = None"
    by (simp_all add: good_section_def good_content_def)
  from ok have ne: "title s \<noteq> []" by (simp add: title_ok_def)
  have 1: "line_step now st (35 # 32 # title s)
             = (push_section now (js ''Front Matter'') st)
                 \<lparr>currentHeader := title s, currentContent := []\<rparr>"
    using headerMatch_title [OF ok] ne by (simp add: line_step_heading)
  have 2: "\<forall>l\<in>set ([] # split_lines (content s)). headerMatch l = None"
    using lines by (simp add: headerMatch_empty)
  let ?L = "[] # split_lines (content s)"
  let ?st1 = "(push_section now (js ''Front Matter'') st)
                 \<lparr>currentHeader := title s, currentContent := []\<rparr>"
  have "foldl (line_step now) st ((35 # 32 # title s) # ?L)
          = foldl (line_step now) (line_step now st (35 # 32 # title s)) ?L"
    by (rule foldl_Cons)
  also have "\<dots> = foldl (line_step now) ?st1 ?L" by (simp only: 1)
  also have "\<dots> = ?st1\<lparr>currentContent := currentContent ?st1 @ ?L\<rparr>"
    using 2 by (rule foldl_content_lines)
  also have "\<dots> = (push_section now (js ''Front Matter'') st)
               \<lparr>currentHeader := title s, currentContent := ?L\<rparr>"
    by simp
  finally show ?thesis .
qed

lemma trim_block_content:
  assumes "good_content c"
  shows "trim (join [10] ([] # split_lines c)) = c"
    and "trim (join [10] (([] # split_lines c) @ [[]])) = c"
proof -
  from assms have j: "join [10] (split_lines c) = c" and t: "trim c = c"
    by (simp_all add: good_content_def join_split_lines)
  have ws: "list_all isWhiteSpace [10]" by (simp add: isWhiteSpace_def)
  have a: "join [10] ([] # split_lines c) = [10] @ c @ []"
    using j by (simp add: join_Cons split_lines_nonempty)
  then show "trim (join [10] ([] # split_lines c)) = c"
    using trim_ws_ext [of "[10]" "[]" c] ws t by simp
  have "join [10] (([] # split_lines c) @ [[]]) = join [10] ([] # split_lines c) @ [10]"
    by (rule join_snoc_empty) simp
  with a have "join [10] (([] # split_lines c) @ [[]]) = [10] @ c @ [10]" by simp
  then show "trim (join [10] (([] # split_lines c) @ [[]])) = c"
    using trim_ws_ext [of "[10]" "[10]" c] ws t by simp
qed

lemma tc_push_section:
  "map tc (acc_sections (push_section now fb st))
     = map tc (acc_sections st)
       @ (if currentContent st \<noteq> [] \<or> currentHeader st \<noteq> []
          then [(if currentHeader st \<noteq> [] then currentHeader st else fb,
                 trim (join [10] (currentContent st)))]
          else [])"
  by (simp add: acc_push_section)

lemma second_pass:
  assumes "\<forall>s\<in>set (s0 # ss). good_section s"
  shows "map tc (acc_sections (push_section now (js ''Introduction'')
            (foldl (line_step now) st (split_lines (fullText (s0 # ss))))))
         = map tc (acc_sections (push_section now (js ''Front Matter'') st)) @ map tc (s0 # ss)"
  using assms
proof (induction ss arbitrary: s0 st)
  case Nil
  then have g: "good_section s0" by simp
  then have ne: "title s0 \<noteq> []" and gc: "good_content (content s0)"
    by (simp_all add: good_section_def title_ok_def)
  show ?case
    by (simp only: split_fullText_single [OF g] foldl_block [OF g])
       (simp add: tc_push_section ne trim_block_content(1) [OF gc])
next
  case (Cons s1 ss)
  then have g: "good_section s0" and rest: "\<forall>s\<in>set (s1 # ss). good_section s" by simp_all
  from g have ne: "title s0 \<noteq> []" and gc: "good_content (content s0)"
    by (simp_all add: good_section_def title_ok_def)
  let ?st1 = "(push_section now (js ''Front Matter'') st)
               \<lparr>currentHeader := title s0, currentContent := [] # split_lines (content s0)\<rparr>"
  let ?st2 = "?st1\<lparr>currentContent := ([] # split_lines (content s0)) @ [[]]\<rparr>"
  have step: "line_step now ?st1 [] = ?st2"
    by (simp add: line_step_content headerMatch_empty)
  let ?R = "split_lines (fullText (s1 # ss))"
  have "foldl (line_step now) st (split_lines (fullText (s0 # s1 # ss)))
          = foldl (line_step now)
              (foldl (line_step now) st ((35 # 32 # title s0) # [] # split_lines (content s0)))
              ([] # ?R)"
    by (simp only: split_fullText_Cons [OF g] foldl_append)
  also have "\<dots> = foldl (line_step now) ?st1 ([] # ?R)"
    by (simp only: foldl_block [OF g])
  also have "\<dots> = foldl (line_step now) (line_step now ?st1 []) ?R"
    by (rule foldl_Cons)
  also have "\<dots> = foldl (line_step now) ?st2 ?R"
    by (simp only: step)
  finally have "foldl (line_step now) st (split_lines (fullText (s0 # s1 # ss)))
          = foldl (line_step now) ?st2 ?R" .
  moreover have "map tc (acc_sections (push_section now (js ''Introduction'')
            (foldl (line_step now) ?st2 (split_lines (fullText (s1 # ss))))))
         = map tc (acc_sections (push_section now (js ''Front Matter'') ?st2)) @ map tc (s1 # ss)"
    using rest by (rule Cons.IH)
  moreover have "map tc (acc_sections (push_section now (js ''Front Matter'') ?st2))
         = map tc (acc_sections (push_section now (js ''Front Matter'') st)) @ [tc s0]"
    using trim_block_content(2) [OF gc] by (simp add: tc_push_section ne)
  ultimately show ?case by simp
qed

lemma round_trip_good:
  assumes "secs \<noteq> []" and "\<forall>s\<in>set secs. good_section s"
  shows "map tc (modularizeText now (fullText secs)) = map tc secs"
proof -
  from assms(1) obtain s0 ss where secs: "secs = s0 # ss" by (cases secs) auto
  have "map tc (acc_sections (push_section now (js ''Front Matter'') mod_init)) = []"
    by (simp add: tc_push_section mod_init_def)
  with second_pass [of s0 ss now mod_init] assms(2) show ?thesis
    unfolding modularizeText_acc secs by simp
qed

lemmas loop_eval = regex_eval trim_def modularizeText_acc mod_init_def line_step_def
  acc_push_section fullText_def

text \<open>
  Claim C8, as the code has it. Take a text in which no line matches the uppercase
  expression and no line ends with a carriage return (the lines being the pieces of
  \<open>text.split(/\r?\n/)\<close>). Then sectioning the text, joining the sections as the
  full-document view and sectioning again gives sections with the same titles and the
  same contents, in the same order, as the first run.
\<close>

theorem sectionize_round_trip:
  assumes "\<forall>l\<in>set (split_lines text). upperHeaderMatch l = None"
    and "\<forall>l\<in>set (split_lines text). l = [] \<or> last l \<noteq> 13"
  shows "map title (modularizeText now' (fullText (modularizeText now text)))
           = map title (modularizeText now text)
         \<and> map content (modularizeText now' (fullText (modularizeText now text)))
           = map content (modularizeText now text)"
proof -
  let ?s1 = "modularizeText now text"
  let ?s2 = "modularizeText now' (fullText ?s1)"
  have "?s1 \<noteq> []"
    unfolding modularizeText_acc by (rule final_acc_nonempty)
  moreover have "\<forall>s\<in>set ?s1. good_section s"
    using assms by (rule first_pass_good)
  ultimately have eq: "map tc ?s2 = map tc ?s1" by (rule round_trip_good)
  from eq have "map fst (map tc ?s2) = map fst (map tc ?s1)" by (rule arg_cong)
  then have t: "map title ?s2 = map title ?s1" by (simp add: comp_def)
  from eq have "map snd (map tc ?s2) = map snd (map tc ?s1)" by (rule arg_cong)
  then have c: "map content ?s2 = map content ?s1" by (simp add: comp_def)
  from t c show ?thesis by (rule conjI)
qed

theorem sectionize_round_trip_witness:
  "map title (modularizeText id (fullText (modularizeText id
      (js ''# Abstract'' @ [10, 10] @ js ''Hello world.'' @ [13, 10] @ js ''## Methods''
       @ [10] @ js ''We did X.''))))
     = [js ''Abstract'', js ''Methods'']
   \<and> map content (modularizeText id (fullText (modularizeText id
      (js ''# Abstract'' @ [10, 10] @ js ''Hello world.'' @ [13, 10] @ js ''## Methods''
       @ [10] @ js ''We did X.''))))
     = [js ''Hello world.'', js ''We did X.'']"
proof -
  let ?T = "js ''# Abstract'' @ [10, 10] @ js ''Hello world.'' @ [13, 10] @ js ''## Methods''
       @ [10] @ js ''We did X.''"
  have lines: "split_lines ?T
     = [js ''# Abstract'', [], js ''Hello world.'', js ''## Methods'', js ''We did X.'']"
    by simp
  have h1: "\<forall>l\<in>set (split_lines ?T). upperHeaderMatch l = None"
    unfolding lines by (simp add: regex_eval)
  have h2: "\<forall>l\<in>set (split_lines ?T). l = [] \<or> last l \<noteq> 13"
    unfolding lines by simp
  have first: "map title (modularizeText id ?T) = [js ''Abstract'', js ''Methods'']"
    "map content (modularizeText id ?T) = [js ''Hello world.'', js ''We did X.'']"
    unfolding modularizeText_acc lines
    by (simp_all add: regex_eval trim_def mod_init_def line_step_def acc_push_section)
  show ?thesis
    using sectionize_round_trip [OF h1 h2, of id id] first by simp
qed

text \<open>
  The claim C8 as stated fails for a content line that ends with a carriage return. The
  text \<open>x\r\r\ny\<close> has the lines \<open>x\r\<close> and \<open>y\<close>, neither of them a heading
  line, so the first run gives the section \<open>Introduction\<close> with the content
  \<open>x\r\ny\<close>. In the full-document view that CR stands before the LF of the join, the
  second split takes both as one separator, and the content of the second run is
  \<open>x\ny\<close>.
\<close>

theorem round_trip_counterexample:
  "split_lines [120, 13, 13, 10, 121] = [[120, 13], [121]]
   \<and> headerMatch [120, 13] = None \<and> headerMatch [121] = None
   \<and> map title (modularizeText id [120, 13, 13, 10, 121]) = [js ''Introduction'']
   \<and> map content (modularizeText id [120, 13, 13, 10, 121]) = [[120, 13, 10, 121]]
   \<and> fullText (modularizeText id [120, 13, 13, 10, 121])
       = js ''# Introduction'' @ [10, 10, 120, 13, 10, 121]
   \<and> map content (modularizeText id (fullText (modularizeText id [120, 13, 13, 10, 121])))
       = [[120, 10, 121]]"
  by (simp add: loop_eval)

end
